theory Spec2Isabelle
  imports Main "HOL-Library.AList" "HOL-Library.Multiset"
begin

section \<open>The autonomous task executor (lib/autonomous/task-executor.ts)\<close>

text \<open>
  The class \<open>AutonomousTaskExecutor\<close> keeps a table of task objects (a JavaScript
  \<open>Map\<close> from ids to objects), the ready queue \<open>taskQueue\<close> (an array of ids) and
  the set \<open>runningTasks\<close>. Task objects are mutable and shared: \<open>executeTask\<close> keeps
  the reference it took from the table across its \<open>await\<close>s, whatever happens to the
  table meanwhile. The model therefore has an explicit store of task objects, and the
  table maps ids to references. JavaScript numbers are modelled as integers.
\<close>

subsection \<open>Data model\<close>

datatype priority = low | medium | high | critical

datatype status = queued | running | completed | failed | paused

text \<open>
  The interface \<open>AutonomousTask\<close>. The field \<open>id\<close> is called \<open>task_id\<close> here.
  \<open>dependencies\<close> is optional in the interface, but \<open>createTask\<close>, the only place a
  task object is built, always stores an array. \<open>result\<close> is the object
  \<open>{ success, message }\<close>. Dates are numbers of milliseconds.
\<close>

record AutonomousTask =
  task_id :: string
  name :: string
  description :: string
  priority :: priority
  status :: status
  progress :: int
  createdAt :: nat
  startedAt :: "nat option"
  completedAt :: "nat option"
  result :: "(bool \<times> string) option"
  error :: "string option"
  dependencies :: "string list"
  retries :: int
  maxRetries :: int

record TaskExecutorConfig =
  maxConcurrent :: int
  retryDelay :: int
  defaultMaxRetries :: int

text \<open>\<open>Partial<TaskExecutorConfig>\<close>: every field may be absent.\<close>

record PartialConfig =
  p_maxConcurrent :: "int option"
  p_retryDelay :: "int option"
  p_defaultMaxRetries :: "int option"

text \<open>The \<open>options\<close> argument of \<open>createTask\<close>.\<close>

record CreateOptions =
  o_priority :: "priority option"
  o_dependencies :: "string list option"
  o_maxRetries :: "int option"

text \<open>
  The \<open>executor\<close> argument of \<open>createTask\<close>, a closure \<open>() => Promise<any>\<close>: what its
  n-th invocation would settle to.
\<close>

datatype outcome = Resolves string | Rejects string

type_synonym executor = "nat \<Rightarrow> outcome"

text \<open>
  The state of one \<open>AutonomousTaskExecutor\<close>: its five private fields, the store of
  task objects, and the asynchronous calls that are suspended at an \<open>await\<close>:
  \<open>loops\<close> counts the activations of \<open>processQueue\<close> waiting for their 100 ms timer,
  and \<open>executions\<close> lists the activations of \<open>executeTask\<close> waiting for their 200 ms
  timer, each with the task object it holds, its \<open>taskId\<close> and its loop counter \<open>i\<close>.
  \<open>tasks\<close> keeps the insertion order of the \<open>Map\<close>; \<open>runningTasks\<close> is a list without
  repetition.
\<close>

record AutonomousTaskExecutor =
  heap :: "nat \<Rightarrow> AutonomousTask option"
  nextRef :: nat
  tasks :: "(string \<times> nat) list"
  runningTasks :: "string list"
  taskQueue :: "string list"
  config :: TaskExecutorConfig
  isRunning :: bool
  loops :: nat
  executions :: "(nat \<times> string \<times> int) list"

subsection \<open>Construction\<close>

text \<open>\<open>x || d\<close> on an optional number: \<open>undefined\<close> and \<open>0\<close> are falsy.\<close>

definition num_or :: "int option \<Rightarrow> int \<Rightarrow> int" where
  "num_or x d = (case x of None \<Rightarrow> d | Some v \<Rightarrow> if v = 0 then d else v)"

definition constructor :: "PartialConfig option \<Rightarrow> AutonomousTaskExecutor" where
  "constructor cfg =
     \<lparr> heap = Map.empty, nextRef = 0, tasks = [], runningTasks = [], taskQueue = [],
       config = \<lparr> maxConcurrent = num_or (Option.bind cfg p_maxConcurrent) 3,
                  retryDelay = num_or (Option.bind cfg p_retryDelay) 5000,
                  defaultMaxRetries = num_or (Option.bind cfg p_defaultMaxRetries) 3 \<rparr>,
       isRunning = False, loops = 0, executions = [] \<rparr>"

subsection \<open>Table access\<close>

text \<open>\<open>this.tasks.get(taskId)\<close>: the task object, if any.\<close>

definition tasks_get :: "AutonomousTaskExecutor \<Rightarrow> string \<Rightarrow> AutonomousTask option" where
  "tasks_get s taskId =
     (case map_of (tasks s) taskId of None \<Rightarrow> None | Some r \<Rightarrow> heap s r)"

text \<open>Assignment to fields of the task object at reference \<open>r\<close>.\<close>

definition mutate :: "nat \<Rightarrow> (AutonomousTask \<Rightarrow> AutonomousTask) \<Rightarrow>
    AutonomousTaskExecutor \<Rightarrow> AutonomousTaskExecutor" where
  "mutate r f s =
     (case heap s r of None \<Rightarrow> s | Some t \<Rightarrow> s\<lparr>heap := (heap s)(r \<mapsto> f t)\<rparr>)"

subsection \<open>generateTaskId\<close>

text \<open>
  \<open>`task_${Date.now()}_${Math.random().toString(36).substr(2, 9)}`\<close>: the clock value
  and the random suffix come from the environment.
\<close>

definition digit_char :: "nat \<Rightarrow> char" where
  "digit_char d = char_of (48 + d)"

fun decimal :: "nat \<Rightarrow> string" where
  "decimal n = (if n < 10 then [digit_char n] else decimal (n div 10) @ [digit_char (n mod 10)])"

declare decimal.simps [simp del]

definition generateTaskId :: "nat \<Rightarrow> string \<Rightarrow> string" where
  "generateTaskId now rnd = ''task_'' @ decimal now @ ''_'' @ rnd"

subsection \<open>queueTask\<close>

fun priorityOrder :: "priority \<Rightarrow> nat" where
  "priorityOrder critical = 0"
| "priorityOrder high = 1"
| "priorityOrder medium = 2"
| "priorityOrder low = 3"

text \<open>
  The \<open>for\<close> loop of \<open>queueTask\<close>: the index of the first queued id that has a task of
  larger \<open>priorityOrder\<close>, and the length of the queue when there is none.
\<close>

fun insertIndex :: "(string \<Rightarrow> AutonomousTask option) \<Rightarrow> nat \<Rightarrow> string list \<Rightarrow> nat" where
  "insertIndex get taskPriority [] = 0"
| "insertIndex get taskPriority (q # qs) =
     (case get q of
        None \<Rightarrow> Suc (insertIndex get taskPriority qs)
      | Some queuedTask \<Rightarrow>
          if priorityOrder (priority queuedTask) > taskPriority then 0
          else Suc (insertIndex get taskPriority qs))"

text \<open>\<open>xs.splice(i, 0, x)\<close>.\<close>

definition splice_in :: "nat \<Rightarrow> 'a \<Rightarrow> 'a list \<Rightarrow> 'a list" where
  "splice_in i x xs = take i xs @ [x] @ drop i xs"

definition queueTask :: "string \<Rightarrow> AutonomousTaskExecutor \<Rightarrow> AutonomousTaskExecutor" where
  "queueTask taskId s =
     (case tasks_get s taskId of
        None \<Rightarrow> s
      | Some task \<Rightarrow>
          s\<lparr>taskQueue :=
              splice_in (insertIndex (tasks_get s) (priorityOrder (priority task)) (taskQueue s))
                taskId (taskQueue s)\<rparr>)"

subsection \<open>createTask\<close>

text \<open>
  \<open>idTime\<close> and \<open>rnd\<close> are what \<open>generateTaskId\<close> reads, \<open>now\<close> is \<open>new Date()\<close>.
  The \<open>executor\<close> argument is not stored in the task object, nor anywhere else.
  \<open>this.tasks.set\<close> puts a new object in the store.
\<close>

definition createTask :: "string \<Rightarrow> string \<Rightarrow> executor \<Rightarrow> CreateOptions option \<Rightarrow>
    nat \<Rightarrow> string \<Rightarrow> nat \<Rightarrow> AutonomousTaskExecutor \<Rightarrow> string \<times> AutonomousTaskExecutor" where
  "createTask nm descr exec options idTime rnd now s =
     (let taskId = generateTaskId idTime rnd;
          task = \<lparr> task_id = taskId, name = nm, description = descr,
                   priority = (case Option.bind options o_priority of
                                 None \<Rightarrow> medium | Some p \<Rightarrow> p),
                   status = queued, progress = 0, createdAt = now,
                   startedAt = None, completedAt = None, result = None, error = None,
                   dependencies = (case Option.bind options o_dependencies of
                                     None \<Rightarrow> [] | Some ds \<Rightarrow> ds),
                   retries = 0,
                   maxRetries = num_or (Option.bind options o_maxRetries)
                                  (defaultMaxRetries (config s)) \<rparr>;
          r = nextRef s;
          s1 = s\<lparr>heap := (heap s)(r \<mapsto> task), nextRef := Suc r,
                 tasks := AList.update taskId r (tasks s)\<rparr>
      in (taskId, queueTask taskId s1))"

subsection \<open>executeTask\<close>

text \<open>\<open>Set.add\<close> and \<open>Set.delete\<close>.\<close>

definition set_add :: "'a \<Rightarrow> 'a list \<Rightarrow> 'a list" where
  "set_add x xs = (if x \<in> set xs then xs else xs @ [x])"

definition set_delete :: "'a \<Rightarrow> 'a list \<Rightarrow> 'a list" where
  "set_delete x xs = removeAll x xs"

text \<open>The callback of \<open>task.dependencies.every\<close>.\<close>

definition depCompleted :: "AutonomousTaskExecutor \<Rightarrow> string \<Rightarrow> bool" where
  "depCompleted s depId =
     (case tasks_get s depId of None \<Rightarrow> False | Some dep \<Rightarrow> status dep = completed)"

text \<open>
  \<open>executeTask\<close> up to its first \<open>await\<close>: the dependency check, and then the start of
  the run, which leaves the call suspended in the iteration \<open>i = 0\<close> of the progress loop.
\<close>

definition executeTask :: "string \<Rightarrow> nat \<Rightarrow> AutonomousTaskExecutor \<Rightarrow> AutonomousTaskExecutor" where
  "executeTask taskId now s =
     (case map_of (tasks s) taskId of
        None \<Rightarrow> s
      | Some r \<Rightarrow>
         (case heap s r of
            None \<Rightarrow> s
          | Some task \<Rightarrow>
              if length (dependencies task) > 0 \<and> \<not> list_all (depCompleted s) (dependencies task)
              then s\<lparr>taskQueue := taskQueue s @ [taskId]\<rparr>
              else s\<lparr>runningTasks := set_add taskId (runningTasks s),
                     heap := (heap s)(r \<mapsto> task\<lparr>status := running, startedAt := Some now,
                                                 progress := 0\<rparr>),
                     executions := executions s @ [(r, taskId, 0)]\<rparr>))"

text \<open>
  The \<open>k\<close>-th suspended \<open>executeTask\<close> call wakes up from its 200 ms timer: the loop
  counter advances by 10; while it is at most 100 the progress is stored and the call
  waits again, otherwise the \<open>try\<close> block ends (the task is marked completed) and the
  \<open>finally\<close> block removes the id from \<open>runningTasks\<close>. Nothing in the \<open>try\<close> block
  throws (it assigns to fields and awaits timers that always resolve), so the
  \<open>catch\<close> block, which holds the retry logic, is never entered.
\<close>

definition executeTask_resume :: "nat \<Rightarrow> nat \<Rightarrow> AutonomousTaskExecutor \<Rightarrow> AutonomousTaskExecutor" where
  "executeTask_resume k now s =
     (if k < length (executions s) then
        (case executions s ! k of (r, taskId, i) \<Rightarrow>
           if i + 10 \<le> 100
           then mutate r (\<lambda>task. task\<lparr>progress := i + 10\<rparr>)
                  (s\<lparr>executions := (executions s)[k := (r, taskId, i + 10)]\<rparr>)
           else (mutate r (\<lambda>task. task\<lparr>status := completed, completedAt := Some now,
                        progress := 100,
                        result := Some (True, ''Task '' @ name task @ '' completed successfully'')\<rparr>)
                  (s\<lparr>executions := take k (executions s) @ drop (Suc k) (executions s)\<rparr>))
                \<lparr>runningTasks := set_delete taskId (runningTasks s)\<rparr>)
      else s)"

subsection \<open>start, stop, processQueue\<close>

text \<open>One iteration of the \<open>while\<close> loop of \<open>processQueue\<close>, up to its \<open>await\<close>.\<close>

definition processQueue_iteration :: "nat \<Rightarrow> AutonomousTaskExecutor \<Rightarrow> AutonomousTaskExecutor" where
  "processQueue_iteration now s =
     (if int (length (runningTasks s)) < maxConcurrent (config s) \<and> length (taskQueue s) > 0
      then (case taskQueue s of
              [] \<Rightarrow> s
            | taskId # rest \<Rightarrow>
                if taskId \<noteq> [] then executeTask taskId now (s\<lparr>taskQueue := rest\<rparr>)
                else s\<lparr>taskQueue := rest\<rparr>)
      else s)"

definition start :: "nat \<Rightarrow> AutonomousTaskExecutor \<Rightarrow> AutonomousTaskExecutor" where
  "start now s =
     (if isRunning s then s
      else (processQueue_iteration now (s\<lparr>isRunning := True\<rparr>))\<lparr>loops := Suc (loops s)\<rparr>)"

definition stop :: "AutonomousTaskExecutor \<Rightarrow> AutonomousTaskExecutor" where
  "stop s = s\<lparr>isRunning := False\<rparr>"

text \<open>
  A suspended \<open>processQueue\<close> wakes up from its 100 ms timer and tests the loop
  condition: it runs the next iteration, or returns.
\<close>

definition processQueue_resume :: "nat \<Rightarrow> AutonomousTaskExecutor \<Rightarrow> AutonomousTaskExecutor" where
  "processQueue_resume now s =
     (if loops s = 0 then s
      else if isRunning s then processQueue_iteration now s
      else s\<lparr>loops := loops s - 1\<rparr>)"

subsection \<open>Queries and control operations\<close>

definition getTask :: "string \<Rightarrow> AutonomousTaskExecutor \<Rightarrow> AutonomousTask option" where
  "getTask taskId s = tasks_get s taskId"

definition getAllTasks :: "AutonomousTaskExecutor \<Rightarrow> AutonomousTask list" where
  "getAllTasks s = List.map_filter (\<lambda>(k, r). heap s r) (tasks s)"

definition getTasksByStatus :: "status \<Rightarrow> AutonomousTaskExecutor \<Rightarrow> AutonomousTask list" where
  "getTasksByStatus st s = filter (\<lambda>task. status task = st) (getAllTasks s)"

definition pauseTask :: "string \<Rightarrow> AutonomousTaskExecutor \<Rightarrow> AutonomousTaskExecutor" where
  "pauseTask taskId s =
     (case map_of (tasks s) taskId of
        None \<Rightarrow> s
      | Some r \<Rightarrow>
         (case heap s r of
            None \<Rightarrow> s
          | Some task \<Rightarrow>
              if status task = running
              then s\<lparr>heap := (heap s)(r \<mapsto> task\<lparr>status := paused\<rparr>)\<rparr>
              else s))"

definition resumeTask :: "string \<Rightarrow> AutonomousTaskExecutor \<Rightarrow> AutonomousTaskExecutor" where
  "resumeTask taskId s =
     (case map_of (tasks s) taskId of
        None \<Rightarrow> s
      | Some r \<Rightarrow>
         (case heap s r of
            None \<Rightarrow> s
          | Some task \<Rightarrow>
              if status task = paused
              then queueTask taskId (s\<lparr>heap := (heap s)(r \<mapsto> task\<lparr>status := queued\<rparr>)\<rparr>)
              else s))"

text \<open>\<open>indexOf\<close> and \<open>splice(queueIndex, 1)\<close> remove the first occurrence.\<close>

definition cancelTask :: "string \<Rightarrow> AutonomousTaskExecutor \<Rightarrow> AutonomousTaskExecutor" where
  "cancelTask taskId s =
     (case map_of (tasks s) taskId of
        None \<Rightarrow> s
      | Some r \<Rightarrow>
         (case heap s r of
            None \<Rightarrow> s
          | Some task \<Rightarrow>
              s\<lparr>heap := (heap s)(r \<mapsto> task\<lparr>status := failed, error := Some ''Cancelled by user''\<rparr>),
                taskQueue := remove1 taskId (taskQueue s)\<rparr>))"

text \<open>\<open>completedTasks.forEach(task => this.tasks.delete(task.id))\<close>.\<close>

definition clearCompleted :: "AutonomousTaskExecutor \<Rightarrow> AutonomousTaskExecutor" where
  "clearCompleted s =
     s\<lparr>tasks := fold (\<lambda>task ts. AList.delete (task_id task) ts)
                  (getTasksByStatus completed s) (tasks s)\<rparr>"

record Stats =
  total :: nat
  n_queued :: nat
  n_running :: nat
  n_completed :: nat
  n_failed :: nat
  n_paused :: nat

definition getStats :: "AutonomousTaskExecutor \<Rightarrow> Stats" where
  "getStats s =
     \<lparr> total = length (tasks s),
       n_queued = length (getTasksByStatus queued s),
       n_running = length (getTasksByStatus running s),
       n_completed = length (getTasksByStatus completed s),
       n_failed = length (getTasksByStatus failed s),
       n_paused = length (getTasksByStatus paused s) \<rparr>"

subsection \<open>Runs of the executor\<close>

text \<open>
  Everything that can happen to an executor: a call of a public method, or a timer that
  wakes a suspended \<open>processQueue\<close> or \<open>executeTask\<close>. JavaScript runs each of them to
  its next \<open>await\<close> without interruption.
\<close>

datatype event =
    CreateTask string string executor "CreateOptions option" nat string nat
  | Start nat
  | Stop
  | LoopTimer nat
  | ExecTimer nat nat
  | PauseTask string
  | ResumeTask string
  | CancelTask string
  | ClearCompleted

fun exec :: "event \<Rightarrow> AutonomousTaskExecutor \<Rightarrow> AutonomousTaskExecutor" where
  "exec (CreateTask nm descr ex options idTime rnd now) s =
     snd (createTask nm descr ex options idTime rnd now s)"
| "exec (Start now) s = start now s"
| "exec Stop s = stop s"
| "exec (LoopTimer now) s = processQueue_resume now s"
| "exec (ExecTimer k now) s = executeTask_resume k now s"
| "exec (PauseTask taskId) s = pauseTask taskId s"
| "exec (ResumeTask taskId) s = resumeTask taskId s"
| "exec (CancelTask taskId) s = cancelTask taskId s"
| "exec ClearCompleted s = clearCompleted s"

fun run :: "event list \<Rightarrow> AutonomousTaskExecutor \<Rightarrow> AutonomousTaskExecutor" where
  "run [] s = s"
| "run (e # es) s = run es (exec e s)"

subsection \<open>Observations and invariants\<close>

text \<open>The status of the job that the table holds under an id.\<close>

definition status_of :: "AutonomousTaskExecutor \<Rightarrow> string \<Rightarrow> status option" where
  "status_of s taskId = map_option status (tasks_get s taskId)"

text \<open>The concurrency gate: \<open>runningTasks.size\<close> is at most \<open>maxConcurrent\<close>.\<close>

definition capacity_ok :: "AutonomousTaskExecutor \<Rightarrow> bool" where
  "capacity_ok s = (int (length (runningTasks s)) \<le> maxConcurrent (config s))"

text \<open>The fields of a task object that nothing assigns after \<open>createTask\<close>.\<close>

definition same_fields :: "AutonomousTask \<Rightarrow> AutonomousTask \<Rightarrow> bool" where
  "same_fields t t' =
     (task_id t' = task_id t \<and> priority t' = priority t \<and> dependencies t' = dependencies t)"

definition same_objects :: "AutonomousTaskExecutor \<Rightarrow> AutonomousTaskExecutor \<Rightarrow> bool" where
  "same_objects s s' = (\<forall>r. rel_option same_fields (heap s r) (heap s' r))"

text \<open>
  The table is well formed: its keys are distinct, each key maps to an object whose
  \<open>id\<close> field is the key, and the objects of the store are below \<open>nextRef\<close>.
\<close>

definition table_ok :: "AutonomousTaskExecutor \<Rightarrow> bool" where
  "table_ok s = (distinct (map fst (tasks s)) \<and>
     (\<forall>(k, r) \<in> set (tasks s). \<exists>t. heap s r = Some t \<and> task_id t = k) \<and>
     (\<forall>r. heap s r \<noteq> None \<longrightarrow> r < nextRef s))"

text \<open>The id that an event gives to a new job, and the ids given during a run.\<close>

fun created_id :: "event \<Rightarrow> string option" where
  "created_id (CreateTask nm descr ex options idTime rnd now) = Some (generateTaskId idTime rnd)"
| "created_id e = None"

definition created_ids :: "event list \<Rightarrow> string list" where
  "created_ids es = List.map_filter created_id es"

text \<open>
  The queue holds no id twice, and no id of a running, paused or failed job.
\<close>

definition queue_ok :: "AutonomousTaskExecutor \<Rightarrow> bool" where
  "queue_ok s = (distinct (taskQueue s) \<and>
     (\<forall>k \<in> set (taskQueue s).
        status_of s k \<notin> {Some running, Some paused, Some failed}))"

text \<open>The ids in the queue or in the table.\<close>

definition known_ids :: "AutonomousTaskExecutor \<Rightarrow> string set" where
  "known_ids s = set (taskQueue s) \<union> fst ` set (tasks s)"

text \<open>The job is out of the queue and neither queued, running nor paused.\<close>

definition cancelled_out :: "string \<Rightarrow> AutonomousTaskExecutor \<Rightarrow> bool" where
  "cancelled_out taskId s = (taskId \<notin> set (taskQueue s) \<and>
     status_of s taskId \<notin> {Some queued, Some running, Some paused})"

text \<open>
  The test of the \<open>for\<close> loop of \<open>queueTask\<close>: the queued id has a task, of larger
  \<open>priorityOrder\<close> than \<open>taskPriority\<close>.
\<close>

definition lower_priority :: "AutonomousTaskExecutor \<Rightarrow> nat \<Rightarrow> string \<Rightarrow> bool" where
  "lower_priority s taskPriority q =
     (case tasks_get s q of
        None \<Rightarrow> False
      | Some queuedTask \<Rightarrow> priorityOrder (priority queuedTask) > taskPriority)"

text \<open>
  The \<open>priorityOrder\<close> and the dependencies that a submission asks for, and the events
  of the control loop and of the executions (no call of a control operation).
\<close>

fun submitted_rank :: "event \<Rightarrow> nat" where
  "submitted_rank (CreateTask nm descr ex options idTime rnd now) =
     priorityOrder (case Option.bind options o_priority of None \<Rightarrow> medium | Some p \<Rightarrow> p)"
| "submitted_rank e = 0"

fun submitted_dependencies :: "event \<Rightarrow> string list" where
  "submitted_dependencies (CreateTask nm descr ex options idTime rnd now) =
     (case Option.bind options o_dependencies of None \<Rightarrow> [] | Some ds \<Rightarrow> ds)"
| "submitted_dependencies e = []"

fun loop_event :: "event \<Rightarrow> bool" where
  "loop_event (Start now) = True"
| "loop_event Stop = True"
| "loop_event (LoopTimer now) = True"
| "loop_event (ExecTimer k now) = True"
| "loop_event e = False"

text \<open>
  The test of \<open>processQueue\<close> before it dequeues, and the events at which an iteration
  of the loop runs with that test true: \<open>start\<close> on a stopped executor, and the timer of
  a live loop while the executor is running.
\<close>

definition gate_open :: "AutonomousTaskExecutor \<Rightarrow> bool" where
  "gate_open s =
     (int (length (runningTasks s)) < maxConcurrent (config s) \<and> length (taskQueue s) > 0)"

fun dequeues :: "event \<Rightarrow> AutonomousTaskExecutor \<Rightarrow> bool" where
  "dequeues (Start now) s = (\<not> isRunning s \<and> gate_open (s\<lparr>isRunning := True\<rparr>))"
| "dequeues (LoopTimer now) s = (loops s \<noteq> 0 \<and> isRunning s \<and> gate_open s)"
| "dequeues e s = False"

text \<open>Every submitted job is in the table with the priority and dependencies asked for.\<close>

definition submitted :: "event list \<Rightarrow> AutonomousTaskExecutor \<Rightarrow> bool" where
  "submitted es s = (\<forall>e \<in> set es. \<forall>k. created_id e = Some k \<longrightarrow>
     (\<exists>t. tasks_get s k = Some t \<and> priorityOrder (priority t) = submitted_rank e \<and>
        dependencies t = submitted_dependencies e))"

text \<open>Every queued id is a non-empty string and has a job without dependencies.\<close>

definition ready :: "AutonomousTaskExecutor \<Rightarrow> bool" where
  "ready s = (\<forall>k \<in> set (taskQueue s). k \<noteq> [] \<and>
     (\<exists>t. tasks_get s k = Some t \<and> dependencies t = []))"

subsection \<open>Sample runs\<close>

text \<open>A body that rejects each time it is invoked.\<close>

definition failing_body :: executor where
  "failing_body n = Rejects ''boom''"

text \<open>
  One job with the failing body and \<open>maxRetries: 2\<close> on a default executor; the executor
  is started, and then the eleven 200 ms timers of the job's execution fire.
\<close>

definition sample_create :: event where
  "sample_create = CreateTask ''job'' ''always fails'' failing_body
      (Some \<lparr>o_priority = None, o_dependencies = None, o_maxRetries = Some 2\<rparr>) 5 ''x'' 5"

definition sample_started :: AutonomousTaskExecutor where
  "sample_started = run [sample_create, Start 6] (constructor None)"

definition sample_completed :: AutonomousTaskExecutor where
  "sample_completed = run (replicate 11 (ExecTimer 0 7)) sample_started"

text \<open>A job that depends on a job that has not been submitted.\<close>

definition sample_blocked :: AutonomousTaskExecutor where
  "sample_blocked = run [CreateTask ''B'' ''needs A'' failing_body
      (Some \<lparr>o_priority = None, o_dependencies = Some [''task_1_a''], o_maxRetries = None\<rparr>)
      2 ''b'' 2] (constructor None)"

text \<open>A job submitted with \<open>maxRetries: 0\<close> on a default executor.\<close>

definition sample_no_retry :: AutonomousTaskExecutor where
  "sample_no_retry = snd (createTask ''job'' ''fails once'' failing_body
      (Some \<lparr>o_priority = None, o_dependencies = None, o_maxRetries = Some 0\<rparr>) 5 ''x'' 5
      (constructor None))"

text \<open>The sample job after ten of its eleven timers: its execution is in its last wait.\<close>

definition sample_last_wait :: AutonomousTaskExecutor where
  "sample_last_wait = run (replicate 10 (ExecTimer 0 7)) sample_started"

text \<open>Two jobs; the first has run to completion, the second is still queued.\<close>

definition sample_mixed_events :: "event list" where
  "sample_mixed_events =
     [CreateTask ''A'' ''first'' failing_body None 1 ''a'' 1,
      CreateTask ''B'' ''second'' failing_body None 2 ''b'' 2,
      Start 3] @ replicate 11 (ExecTimer 0 4)"

definition sample_mixed :: AutonomousTaskExecutor where
  "sample_mixed = run sample_mixed_events (constructor None)"

text \<open>The sample job just after its submission.\<close>

definition sample_queued :: AutonomousTaskExecutor where
  "sample_queued = run [sample_create] (constructor None)"

text \<open>
  Four submissions with priorities low, critical, medium (by default) and medium.
\<close>

definition sample_priorities :: "event list" where
  "sample_priorities =
     [CreateTask ''L'' ''low'' failing_body
        (Some \<lparr>o_priority = Some low, o_dependencies = None, o_maxRetries = None\<rparr>) 1 ''a'' 1,
      CreateTask ''C'' ''critical'' failing_body
        (Some \<lparr>o_priority = Some critical, o_dependencies = None, o_maxRetries = None\<rparr>) 2 ''b'' 2,
      CreateTask ''M'' ''medium'' failing_body None 3 ''c'' 3,
      CreateTask ''N'' ''medium again'' failing_body
        (Some \<lparr>o_priority = Some medium, o_dependencies = Some [], o_maxRetries = None\<rparr>) 4 ''d'' 4]"

text \<open>
  The four submissions, then \<open>start\<close> and one loop timer: the critical job and the first
  medium job are running, the second medium job and the low job are queued.
\<close>

definition sample_two_running :: AutonomousTaskExecutor where
  "sample_two_running = run (sample_priorities @ [Start 5, LoopTimer 6]) (constructor None)"

text \<open>
  An executor with \<open>maxConcurrent: 1\<close>. A low job A, a critical job B that depends on
  A, and a low job L are submitted. \<open>start\<close> dequeues B, whose dependency is not met, and
  pushes it to the tail; the next iteration runs A, to its end. Then L and B are both
  queued with no pending dependency.
\<close>

definition sample_dependency_events :: "event list" where
  "sample_dependency_events =
     [CreateTask ''A'' ''low'' failing_body
        (Some \<lparr>o_priority = Some low, o_dependencies = None, o_maxRetries = None\<rparr>) 1 ''a'' 1,
      CreateTask ''B'' ''critical, after A'' failing_body
        (Some \<lparr>o_priority = Some critical, o_dependencies = Some [''task_1_a''],
               o_maxRetries = None\<rparr>) 2 ''b'' 2,
      CreateTask ''L'' ''low'' failing_body
        (Some \<lparr>o_priority = Some low, o_dependencies = None, o_maxRetries = None\<rparr>) 3 ''l'' 3,
      Start 4, LoopTimer 5] @ replicate 11 (ExecTimer 0 6)"

definition sample_both_ready :: AutonomousTaskExecutor where
  "sample_both_ready = run sample_dependency_events
     (constructor (Some \<lparr>p_maxConcurrent = Some 1, p_retryDelay = None,
                          p_defaultMaxRetries = None\<rparr>))"

section \<open>Properties\<close>

subsection \<open>Frame lemmas\<close>

lemma tasks_queueTask [simp]: "tasks (queueTask taskId s) = tasks s"
  by (auto simp: queueTask_def split: option.splits)

lemma heap_queueTask [simp]: "heap (queueTask taskId s) = heap s"
  by (auto simp: queueTask_def split: option.splits)

lemma tasks_get_queueTask [simp]: "tasks_get (queueTask taskId s) = tasks_get s"
  by (simp add: tasks_get_def fun_eq_iff cong: option.case_cong)

subsection \<open>cancelTask\<close>

text \<open>
  Claim C10. For every job in the table whose status is \<open>completed\<close>, \<open>cancelTask\<close> on its
  id sets the status to \<open>failed\<close> and the error to "Cancelled by user": the method tests
  only that the id is in the table.
\<close>

theorem cancelTask_on_completed:
  assumes "tasks_get s taskId = Some task" and "status task = completed"
  shows "tasks_get (cancelTask taskId s) taskId =
           Some (task\<lparr>status := failed, error := Some ''Cancelled by user''\<rparr>)"
  using assms by (auto simp: cancelTask_def tasks_get_def split: option.splits)

theorem cancelTask_on_completed_witness:
  "status_of sample_completed ''task_5_x'' = Some completed \<and>
   status_of (cancelTask ''task_5_x'' sample_completed) ''task_5_x'' = Some failed \<and>
   map_option error (tasks_get (cancelTask ''task_5_x'' sample_completed) ''task_5_x'')
     = Some (Some ''Cancelled by user'')"
proof -
  have e: "status_of sample_completed ''task_5_x'' = Some completed"
    by code_simp
  then obtain task where t: "tasks_get sample_completed ''task_5_x'' = Some task"
    and c: "status task = completed"
    by (auto simp: status_of_def)
  from cancelTask_on_completed [OF t c] e show ?thesis
    by (simp add: status_of_def)
qed

subsection \<open>pauseTask and resumeTask\<close>

lemma pauseTask_noop: "status_of s taskId \<noteq> Some running \<Longrightarrow> pauseTask taskId s = s"
  by (auto simp: pauseTask_def status_of_def tasks_get_def split: option.splits)

lemma status_of_pauseTask:
  "status_of s taskId = Some running \<Longrightarrow> status_of (pauseTask taskId s) taskId = Some paused"
  by (auto simp: pauseTask_def status_of_def tasks_get_def split: option.splits)

lemma resumeTask_noop: "status_of s taskId \<noteq> Some paused \<Longrightarrow> resumeTask taskId s = s"
  by (auto simp: resumeTask_def status_of_def tasks_get_def split: option.splits)

lemma status_of_resumeTask:
  "status_of s taskId = Some paused \<Longrightarrow> status_of (resumeTask taskId s) taskId = Some queued"
  by (auto simp: resumeTask_def status_of_def tasks_get_def split: option.splits)

lemma resumeTask_paused:
  assumes "map_of (tasks s) taskId = Some r" and "heap s r = Some task" and "status task = paused"
  shows "resumeTask taskId s = queueTask taskId (mutate r (\<lambda>t. t\<lparr>status := queued\<rparr>) s)"
  using assms by (simp add: resumeTask_def mutate_def)

subsection \<open>Dependency gating\<close>

text \<open>
  Claim C5. When the dependencies of a job in the table contain an id that does not map
  to a completed job, \<open>executeTask\<close> only pushes the id onto the tail of the queue: the
  store, \<open>runningTasks\<close> and the suspended executions stay as they are, so the job is
  not run and takes no capacity. For the control loop: an iteration that dequeues such a
  job moves its id from the head of the queue to the tail and changes nothing else.
\<close>

theorem executeTask_defers_unmet_dependencies:
  assumes "tasks_get s taskId = Some task"
    and "depId \<in> set (dependencies task)"
    and "\<not> depCompleted s depId"
  shows "executeTask taskId now s = s\<lparr>taskQueue := taskQueue s @ [taskId]\<rparr> \<and>
         (taskId \<noteq> [] \<and> taskQueue s = taskId # rest \<and>
          int (length (runningTasks s)) < maxConcurrent (config s) \<longrightarrow>
            processQueue_iteration now s = s\<lparr>taskQueue := rest @ [taskId]\<rparr>)"
proof -
  have unmet: "\<not> list_all (depCompleted s) (dependencies task)"
    using assms(2,3) by (auto simp: list_all_iff)
  have nonempty: "length (dependencies task) > 0"
    using assms(2) by (cases "dependencies task") auto
  have ex: "executeTask taskId now s = s\<lparr>taskQueue := taskQueue s @ [taskId]\<rparr>"
    using assms(1) unmet nonempty
    by (auto simp: executeTask_def tasks_get_def split: option.splits)
  have dc: "depCompleted (s\<lparr>taskQueue := rest\<rparr>) = depCompleted s"
    by (simp add: depCompleted_def tasks_get_def fun_eq_iff cong: option.case_cong)
  have "executeTask taskId now (s\<lparr>taskQueue := rest\<rparr>) = s\<lparr>taskQueue := rest @ [taskId]\<rparr>"
    using assms(1) unmet nonempty
    by (auto simp: executeTask_def tasks_get_def dc split: option.splits)
  then show ?thesis
    using ex by (auto simp: processQueue_iteration_def)
qed

theorem executeTask_defers_unmet_dependencies_witness:
  "map_option dependencies (tasks_get sample_blocked ''task_2_b'') = Some [''task_1_a''] \<and>
   \<not> depCompleted sample_blocked ''task_1_a'' \<and>
   taskQueue sample_blocked = [''task_2_b''] \<and>
   int (length (runningTasks sample_blocked)) < maxConcurrent (config sample_blocked) \<and>
   executeTask ''task_2_b'' 3 sample_blocked
     = sample_blocked\<lparr>taskQueue := taskQueue sample_blocked @ [''task_2_b'']\<rparr> \<and>
   processQueue_iteration 3 sample_blocked = sample_blocked\<lparr>taskQueue := [''task_2_b'']\<rparr>"
proof -
  have d: "map_option dependencies (tasks_get sample_blocked ''task_2_b'') = Some [''task_1_a'']"
    by code_simp
  have n: "\<not> depCompleted sample_blocked ''task_1_a''"
    by code_simp
  have q: "taskQueue sample_blocked = [''task_2_b'']"
    by code_simp
  have c: "int (length (runningTasks sample_blocked)) < maxConcurrent (config sample_blocked)"
    by code_simp
  from d obtain task where t: "tasks_get sample_blocked ''task_2_b'' = Some task"
    and ds: "dependencies task = [''task_1_a'']"
    by auto
  from ds have m: "''task_1_a'' \<in> set (dependencies task)"
    by simp
  from executeTask_defers_unmet_dependencies [OF t m n, of 3 "[]"] d n q c show ?thesis
    by simp
qed

subsection \<open>The job body and the retry ceiling\<close>

lemma createTask_ignores_executor:
  "createTask nm descr ex options idTime rnd now s
     = createTask nm descr ex' options idTime rnd now s"
  by (simp add: createTask_def)

lemma sample_completed_values:
  "status_of sample_completed ''task_5_x'' = Some completed \<and>
   map_option error (tasks_get sample_completed ''task_5_x'') = Some None \<and>
   map_option retries (tasks_get sample_completed ''task_5_x'') = Some 0 \<and>
   map_option maxRetries (tasks_get sample_completed ''task_5_x'') = Some 2 \<and>
   map_option result (tasks_get sample_completed ''task_5_x'')
     = Some (Some (True, ''Task job completed successfully'')) \<and>
   executions sample_completed = [] \<and> taskQueue sample_completed = [] \<and>
   runningTasks sample_completed = []"
  by code_simp

text \<open>
  Claim C3, evaluated. \<open>createTask\<close> drops the body: its result is the same for any two
  bodies. \<open>executeTask\<close> runs its own progress loop, which cannot fail: the job
  submitted with a body that rejects on every invocation and \<open>maxRetries: 2\<close> ends
  \<open>completed\<close>, with the result of the progress loop, no error and no retry, and the
  executor is then idle.
\<close>

theorem failing_body_job_completes:
  "createTask nm descr ex options idTime rnd now s
     = createTask nm descr failing_body options idTime rnd now s \<and>
   status_of sample_completed ''task_5_x'' = Some completed \<and>
   map_option error (tasks_get sample_completed ''task_5_x'') = Some None \<and>
   map_option retries (tasks_get sample_completed ''task_5_x'') = Some 0 \<and>
   map_option maxRetries (tasks_get sample_completed ''task_5_x'') = Some 2 \<and>
   map_option result (tasks_get sample_completed ''task_5_x'')
     = Some (Some (True, ''Task job completed successfully'')) \<and>
   executions sample_completed = [] \<and> taskQueue sample_completed = [] \<and>
   runningTasks sample_completed = []"
  using createTask_ignores_executor [of nm descr ex options idTime rnd now s failing_body]
    sample_completed_values
  by (rule conjI)

text \<open>
  Claim C7, evaluated. On a default executor, the job submitted with \<open>maxRetries: 0\<close>
  gets \<open>maxRetries = 3\<close>: \<open>0 || this.config.defaultMaxRetries\<close> is the default.
\<close>

theorem maxRetries_zero_becomes_default:
  "map_option maxRetries (tasks_get sample_no_retry ''task_5_x'') = Some 3 \<and>
   map_option retries (tasks_get sample_no_retry ''task_5_x'') = Some 0 \<and>
   status_of sample_no_retry ''task_5_x'' = Some queued"
  by code_simp

subsection \<open>The concurrency gate\<close>

lemma config_queueTask [simp]: "config (queueTask taskId s) = config s"
  by (auto simp: queueTask_def split: option.splits)

lemma runningTasks_queueTask [simp]: "runningTasks (queueTask taskId s) = runningTasks s"
  by (auto simp: queueTask_def split: option.splits)

lemma config_mutate [simp]: "config (mutate r f s) = config s"
  by (auto simp: mutate_def split: option.splits)

lemma runningTasks_mutate [simp]: "runningTasks (mutate r f s) = runningTasks s"
  by (auto simp: mutate_def split: option.splits)

lemma config_executeTask [simp]: "config (executeTask taskId now s) = config s"
  by (auto simp: executeTask_def split: option.splits)

lemma config_processQueue_iteration [simp]: "config (processQueue_iteration now s) = config s"
  by (auto simp: processQueue_iteration_def split: list.splits)

lemma config_exec [simp]: "config (exec e s) = config s"
  by (cases e)
    (auto simp: createTask_def Let_def start_def stop_def processQueue_resume_def
      executeTask_resume_def pauseTask_def resumeTask_def cancelTask_def clearCompleted_def
      split: option.splits prod.splits)

lemma config_run [simp]: "config (run es s) = config s"
  by (induction es arbitrary: s) auto

lemma length_set_add: "length (set_add x xs) \<le> Suc (length xs)"
  by (simp add: set_add_def)

lemma length_set_delete: "length (set_delete x xs) \<le> length xs"
  by (simp add: set_delete_def removeAll_filter_not_eq)

lemma length_running_executeTask:
  "length (runningTasks (executeTask taskId now s)) \<le> Suc (length (runningTasks s))"
  by (auto simp: executeTask_def length_set_add split: option.splits)

lemma capacity_ok_iteration: "capacity_ok s \<Longrightarrow> capacity_ok (processQueue_iteration now s)"
proof -
  assume ok: "capacity_ok s"
  show ?thesis
  proof (cases "int (length (runningTasks s)) < maxConcurrent (config s) \<and> length (taskQueue s) > 0")
    case False
    then show ?thesis using ok by (simp add: processQueue_iteration_def)
  next
    case True
    then obtain taskId rest where q: "taskQueue s = taskId # rest"
      by (cases "taskQueue s") auto
    have "length (runningTasks (executeTask taskId now (s\<lparr>taskQueue := rest\<rparr>)))
            \<le> Suc (length (runningTasks s))"
      using length_running_executeTask [of taskId now "s\<lparr>taskQueue := rest\<rparr>"] by simp
    then show ?thesis
      using True q ok by (auto simp: processQueue_iteration_def capacity_ok_def)
  qed
qed

lemma capacity_ok_set_delete:
  "int (length xs) \<le> m \<Longrightarrow> int (length (set_delete x xs)) \<le> m"
  using length_set_delete [of x xs] by linarith

lemma capacity_ok_resume: "capacity_ok s \<Longrightarrow> capacity_ok (executeTask_resume k now s)"
  by (auto simp: executeTask_resume_def capacity_ok_def capacity_ok_set_delete split: prod.splits)

lemma capacity_ok_exec: "capacity_ok s \<Longrightarrow> capacity_ok (exec e s)"
proof (cases e)
  case (Start now)
  assume "capacity_ok s"
  then show ?thesis
    using capacity_ok_iteration [of "s\<lparr>isRunning := True\<rparr>" now] Start
    by (auto simp: start_def capacity_ok_def)
next
  case (LoopTimer now)
  assume "capacity_ok s"
  then show ?thesis
    using capacity_ok_iteration [of s now] LoopTimer
    by (auto simp: processQueue_resume_def capacity_ok_def)
next
  case (ExecTimer k now)
  assume "capacity_ok s"
  then show ?thesis using ExecTimer by (simp add: capacity_ok_resume)
qed (auto simp: capacity_ok_def createTask_def Let_def stop_def pauseTask_def resumeTask_def
      cancelTask_def clearCompleted_def split: option.splits)

lemma capacity_ok_run: "capacity_ok s \<Longrightarrow> capacity_ok (run es s)"
  by (induction es arbitrary: s) (auto simp: capacity_ok_exec)

lemma iteration_full: "\<not> int (length (runningTasks s)) < maxConcurrent (config s) \<Longrightarrow> processQueue_iteration now s = s"
  by (simp add: processQueue_iteration_def)

lemma resume_finish_removes:
  "k < length (executions s) \<Longrightarrow> executions s ! k = (r, taskId, i) \<Longrightarrow> \<not> i + 10 \<le> 100 \<Longrightarrow>
   taskId \<notin> set (runningTasks (executeTask_resume k now s))"
  by (simp add: executeTask_resume_def set_delete_def)

text \<open>
  Claim C2. In every state that a run reaches from a constructed executor whose
  \<open>maxConcurrent\<close> is not negative, \<open>runningTasks\<close> holds at most \<open>maxConcurrent\<close> ids.
  A loop iteration dequeues nothing unless \<open>runningTasks.size < maxConcurrent\<close>, and
  the end of an execution removes its id from \<open>runningTasks\<close>.
\<close>

theorem runningTasks_bounded:
  assumes "0 \<le> maxConcurrent (config (constructor cfg))"
  shows "int (length (runningTasks (run es (constructor cfg))))
           \<le> maxConcurrent (config (run es (constructor cfg))) \<and>
         int (card (set (runningTasks (run es (constructor cfg)))))
           \<le> maxConcurrent (config (run es (constructor cfg))) \<and>
         (processQueue_iteration now s = s \<or>
            int (length (runningTasks s)) < maxConcurrent (config s)) \<and>
         (k < length (executions s) \<and> executions s ! k = (r, taskId, i) \<and> 90 < i \<longrightarrow>
            taskId \<notin> set (runningTasks (executeTask_resume k now s)))"
proof -
  have "capacity_ok (constructor cfg)"
    using assms by (simp add: capacity_ok_def constructor_def)
  then have "capacity_ok (run es (constructor cfg))"
    by (rule capacity_ok_run)
  then have l: "int (length (runningTasks (run es (constructor cfg))))
      \<le> maxConcurrent (config (run es (constructor cfg)))"
    by (simp add: capacity_ok_def)
  have "card (set (runningTasks (run es (constructor cfg))))
      \<le> length (runningTasks (run es (constructor cfg)))"
    by (rule card_length)
  with l have c: "int (card (set (runningTasks (run es (constructor cfg)))))
      \<le> maxConcurrent (config (run es (constructor cfg)))"
    by linarith
  show ?thesis
    using l c iteration_full [of s now] resume_finish_removes [of k s r taskId i now]
    by auto
qed

theorem runningTasks_bounded_witness:
  "0 \<le> maxConcurrent (config (constructor None)) \<and>
   runningTasks (run [sample_create, Start 6] (constructor None)) = [''task_5_x''] \<and>
   int (length (runningTasks (run [sample_create, Start 6] (constructor None)))) \<le> 3 \<and>
   executions sample_last_wait ! 0 = (0, ''task_5_x'', 100) \<and>
   ''task_5_x'' \<notin> set (runningTasks (executeTask_resume 0 7 sample_last_wait))"
proof -
  have h: "0 \<le> maxConcurrent (config (constructor None))"
    by code_simp
  have m: "maxConcurrent (config (constructor None)) = 3"
    by code_simp
  have q: "runningTasks (run [sample_create, Start 6] (constructor None)) = [''task_5_x'']"
    by code_simp
  have e: "0 < length (executions sample_last_wait)"
    "executions sample_last_wait ! 0 = (0, ''task_5_x'', 100)"
    by code_simp+
  from runningTasks_bounded [OF h, of "[sample_create, Start 6]" 7 sample_last_wait 0 0
      "''task_5_x''" 100] h m q e
  show ?thesis by simp
qed

subsection \<open>The table of tasks\<close>

lemma same_fields_refl [simp]: "same_fields t t"
  by (simp add: same_fields_def)

lemma same_objects_refl [simp]: "same_objects s s"
  by (simp add: same_objects_def option.rel_refl)

lemma same_objects_heap_eq: "heap s' = heap s \<Longrightarrow> same_objects s s'"
  by (simp add: same_objects_def option.rel_refl)

lemma same_objects_upd:
  "heap s r = Some t \<Longrightarrow> same_fields t t' \<Longrightarrow> heap s' = (heap s)(r \<mapsto> t') \<Longrightarrow> same_objects s s'"
  by (auto simp: same_objects_def option.rel_refl)

lemma same_objects_trans: "same_objects s s' \<Longrightarrow> same_objects s' s'' \<Longrightarrow> same_objects s s''"
  unfolding same_objects_def
proof
  fix r
  assume a: "\<forall>r. rel_option same_fields (heap s r) (heap s' r)"
    and b: "\<forall>r. rel_option same_fields (heap s' r) (heap s'' r)"
  from a have "rel_option same_fields (heap s r) (heap s' r)" by blast
  moreover from b have "rel_option same_fields (heap s' r) (heap s'' r)" by blast
  ultimately show "rel_option same_fields (heap s r) (heap s'' r)"
    by (cases "heap s r"; cases "heap s' r"; cases "heap s'' r") (auto simp: same_fields_def)
qed

lemma same_objects_mutate:
  "(\<And>t. same_fields t (f t)) \<Longrightarrow> same_objects s (mutate r f s)"
  by (auto simp: mutate_def same_objects_def option.rel_refl split: option.splits)

lemma same_objects_queueTask: "same_objects s (queueTask taskId s)"
  by (rule same_objects_heap_eq) simp

lemma same_objects_executeTask: "same_objects s (executeTask taskId now s)"
  by (auto simp: executeTask_def same_objects_def same_fields_def option.rel_refl split: option.splits)

lemma heap_taskQueue_upd: "same_objects s (s\<lparr>taskQueue := q\<rparr>)"
  by (rule same_objects_heap_eq) simp

lemma same_objects_iteration: "same_objects s (processQueue_iteration now s)"
proof -
  have "same_objects s (executeTask taskId now (s\<lparr>taskQueue := rest\<rparr>))" for taskId rest
    using same_objects_trans [OF heap_taskQueue_upd same_objects_executeTask] .
  then show ?thesis
    by (auto simp: processQueue_iteration_def same_objects_heap_eq split: list.splits)
qed

lemma same_objects_resume: "same_objects s (executeTask_resume k now s)"
  by (auto simp: executeTask_resume_def mutate_def same_objects_def same_fields_def option.rel_refl
      split: prod.splits option.splits)

lemma same_objects_exec:
  assumes "\<And>nm descr ex options idTime rnd now. e \<noteq> CreateTask nm descr ex options idTime rnd now"
  shows "same_objects s (exec e s)"
proof (cases e)
  case (CreateTask nm descr ex options idTime rnd now)
  with assms show ?thesis by blast
next
  case (Start now)
  have "same_objects s (processQueue_iteration now (s\<lparr>isRunning := True\<rparr>))"
    by (rule same_objects_trans [OF _ same_objects_iteration]) (simp add: same_objects_heap_eq)
  then have "same_objects s ((processQueue_iteration now (s\<lparr>isRunning := True\<rparr>))\<lparr>loops := Suc (loops s)\<rparr>)"
    by (simp add: same_objects_def)
  then show ?thesis using Start by (simp add: start_def)
next
  case Stop
  then show ?thesis by (simp add: stop_def same_objects_heap_eq)
next
  case (LoopTimer now)
  then show ?thesis
    by (simp add: processQueue_resume_def same_objects_iteration same_objects_heap_eq)
next
  case (ExecTimer k now)
  then show ?thesis by (simp add: same_objects_resume)
next
  case (PauseTask taskId)
  then show ?thesis
    by (auto simp: pauseTask_def same_objects_def same_fields_def option.rel_refl split: option.splits)
next
  case (ResumeTask taskId)
  then show ?thesis
    by (auto simp: resumeTask_def same_objects_def same_fields_def option.rel_refl split: option.splits)
next
  case (CancelTask taskId)
  then show ?thesis
    by (auto simp: cancelTask_def same_objects_def same_fields_def option.rel_refl split: option.splits)
next
  case ClearCompleted
  then show ?thesis by (simp add: clearCompleted_def same_objects_heap_eq)
qed

lemma nextRef_queueTask [simp]: "nextRef (queueTask taskId s) = nextRef s"
  by (auto simp: queueTask_def split: option.splits)

lemma nextRef_mutate [simp]: "nextRef (mutate r f s) = nextRef s"
  by (auto simp: mutate_def split: option.splits)

lemma tasks_mutate [simp]: "tasks (mutate r f s) = tasks s"
  by (auto simp: mutate_def split: option.splits)

lemma nextRef_executeTask [simp]: "nextRef (executeTask taskId now s) = nextRef s"
  by (auto simp: executeTask_def split: option.splits)

lemma tasks_executeTask [simp]: "tasks (executeTask taskId now s) = tasks s"
  by (auto simp: executeTask_def split: option.splits)

lemma nextRef_iteration [simp]: "nextRef (processQueue_iteration now s) = nextRef s"
  by (auto simp: processQueue_iteration_def split: list.splits)

lemma tasks_iteration [simp]: "tasks (processQueue_iteration now s) = tasks s"
  by (auto simp: processQueue_iteration_def split: list.splits)

lemma nextRef_exec:
  "nextRef (exec e s) = (case e of CreateTask nm descr ex options idTime rnd now \<Rightarrow> Suc (nextRef s) | _ \<Rightarrow> nextRef s)"
  by (cases e)
    (auto simp: createTask_def Let_def start_def stop_def processQueue_resume_def
      executeTask_resume_def pauseTask_def resumeTask_def cancelTask_def clearCompleted_def
      split: option.splits prod.splits)

lemma tasks_exec:
  "tasks (exec e s) = (case e of
      CreateTask nm descr ex options idTime rnd now \<Rightarrow>
        AList.update (generateTaskId idTime rnd) (nextRef s) (tasks s)
    | ClearCompleted \<Rightarrow> tasks (clearCompleted s)
    | _ \<Rightarrow> tasks s)"
  by (cases e)
    (auto simp: createTask_def Let_def start_def stop_def processQueue_resume_def
      executeTask_resume_def pauseTask_def resumeTask_def cancelTask_def
      split: option.splits prod.splits)

lemma fold_delete_filter:
  "fold (\<lambda>task ts. AList.delete (task_id task) ts) cs ts
     = filter (\<lambda>(k, r). k \<notin> task_id ` set cs) ts"
proof (induction cs arbitrary: ts)
  case Nil
  then show ?case by simp
next
  case (Cons c cs)
  have "fold (\<lambda>task ts. AList.delete (task_id task) ts) (c # cs) ts
          = filter (\<lambda>(k, r). k \<notin> task_id ` set cs) (AList.delete (task_id c) ts)"
    by (simp add: Cons.IH)
  also have "\<dots> = filter (\<lambda>(k, r). k \<notin> task_id ` set (c # cs)) ts"
    unfolding AList.delete_eq filter_filter by (rule filter_cong) auto
  finally show ?case .
qed

lemma set_map_filter: "set (List.map_filter f xs) = {y. \<exists>x \<in> set xs. f x = Some y}"
  by (induction xs) (auto simp: map_filter_simps split: option.splits)

lemma set_getAllTasks: "set (getAllTasks s) = {t. \<exists>x \<in> set (tasks s). heap s (snd x) = Some t}"
  by (simp add: getAllTasks_def set_map_filter case_prod_beta)

lemma clearCompleted_filter:
  assumes "table_ok s"
  shows "tasks (clearCompleted s)
           = filter (\<lambda>(k, r). map_option status (heap s r) \<noteq> Some completed) (tasks s)"
proof -
  have "(k \<notin> task_id ` set (getTasksByStatus completed s))
          = (map_option status (heap s r) \<noteq> Some completed)"
    if kr: "(k, r) \<in> set (tasks s)" for k r
  proof -
    from assms kr obtain t where t: "heap s r = Some t" "task_id t = k"
      by (auto simp: table_ok_def)
    show ?thesis
    proof (cases "status t = completed")
      case True
      then have "t \<in> set (getTasksByStatus completed s)"
        using kr t by (force simp: getTasksByStatus_def set_getAllTasks)
      then show ?thesis using t True by force
    next
      case False
      have "k \<notin> task_id ` set (getTasksByStatus completed s)"
      proof
        assume "k \<in> task_id ` set (getTasksByStatus completed s)"
        then obtain t' k' r' where o: "(k', r') \<in> set (tasks s)" "heap s r' = Some t'"
          "status t' = completed" "task_id t' = k"
          by (auto simp: getTasksByStatus_def set_getAllTasks)
        from assms o(1,2) have "task_id t' = k'"
          by (auto simp: table_ok_def)
        with o(4) have "k' = k" by simp
        moreover from assms have "distinct (map fst (tasks s))"
          by (simp add: table_ok_def)
        ultimately have "r' = r"
          using o(1) kr by (metis eq_key_imp_eq_value)
        with o(2,3) t False show False by simp
      qed
      then show ?thesis using t False by simp
    qed
  qed
  then show ?thesis
    by (auto simp: clearCompleted_def fold_delete_filter intro!: filter_cong)
qed

lemma table_ok_same_objects:
  assumes "table_ok s" and "same_objects s s'" and "tasks s' = tasks s" and "nextRef s' = nextRef s"
  shows "table_ok s'"
proof -
  have rel: "rel_option same_fields (heap s r) (heap s' r)" for r
    using assms(2) by (simp add: same_objects_def)
  have a: "\<exists>t. heap s' r = Some t \<and> task_id t = k" if "(k, r) \<in> set (tasks s)" for k r
  proof -
    from assms(1) that obtain t where "heap s r = Some t" "task_id t = k"
      by (auto simp: table_ok_def)
    with rel [of r] show ?thesis
      by (cases "heap s' r") (auto simp: same_fields_def)
  qed
  have b: "r < nextRef s" if "heap s' r \<noteq> None" for r
  proof -
    from that rel [of r] have "heap s r \<noteq> None"
      by (cases "heap s r") auto
    with assms(1) show ?thesis by (simp add: table_ok_def)
  qed
  show ?thesis
    using assms(1,3,4) a b by (auto simp: table_ok_def)
qed

lemma set_alist_update: "set (AList.update k v al) \<subseteq> insert (k, v) (set al)"
  by (induction al) auto

lemma table_ok_createTask:
  assumes "table_ok s"
  shows "table_ok (snd (createTask nm descr ex options idTime rnd now s))"
proof -
  let ?s' = "snd (createTask nm descr ex options idTime rnd now s)"
  let ?k = "generateTaskId idTime rnd"
  have free: "heap s (nextRef s) = None"
    using assms by (auto simp: table_ok_def)
  have tk: "tasks ?s' = AList.update ?k (nextRef s) (tasks s)"
    by (simp add: createTask_def Let_def)
  have nr: "nextRef ?s' = Suc (nextRef s)"
    by (simp add: createTask_def Let_def)
  have "\<exists>t. heap ?s' (nextRef s) = Some t \<and> task_id t = ?k"
    by (simp add: createTask_def Let_def)
  then obtain t where h1: "heap ?s' (nextRef s) = Some t" and i: "task_id t = ?k"
    by blast
  have "heap ?s' r = ((heap s)(nextRef s \<mapsto> t)) r" for r
    using h1 by (simp add: createTask_def Let_def)
  then have h: "heap ?s' = (heap s)(nextRef s \<mapsto> t)"
    by blast
  have d: "distinct (map fst (tasks ?s'))"
    using assms by (simp add: tk table_ok_def distinct_update)
  have e: "\<exists>t'. heap ?s' r = Some t' \<and> task_id t' = k" if "(k, r) \<in> set (tasks ?s')" for k r
  proof -
    from that have "(k, r) = (?k, nextRef s) \<or> (k, r) \<in> set (tasks s)"
      unfolding tk using set_alist_update [of ?k "nextRef s" "tasks s"] by auto
    then show ?thesis
    proof
      assume "(k, r) = (?k, nextRef s)"
      then show ?thesis using h i by simp
    next
      assume m: "(k, r) \<in> set (tasks s)"
      with assms obtain t' where "heap s r = Some t'" "task_id t' = k"
        by (auto simp: table_ok_def)
      moreover from this free have "r \<noteq> nextRef s" by auto
      ultimately show ?thesis using h by simp
    qed
  qed
  have b: "r < nextRef ?s'" if "heap ?s' r \<noteq> None" for r
    using that assms h nr by (auto simp: table_ok_def less_Suc_eq split: if_splits)
  show ?thesis
    unfolding table_ok_def using d e b by blast
qed

lemma table_ok_clearCompleted:
  assumes "table_ok s"
  shows "table_ok (clearCompleted s)"
proof -
  have t: "tasks (clearCompleted s)
      = filter (\<lambda>(k, r). map_option status (heap s r) \<noteq> Some completed) (tasks s)"
    using assms by (rule clearCompleted_filter)
  have h: "heap (clearCompleted s) = heap s" "nextRef (clearCompleted s) = nextRef s"
    by (simp_all add: clearCompleted_def)
  show ?thesis
    using assms unfolding table_ok_def t h by (auto simp: distinct_map_filter)
qed

lemma table_ok_exec:
  assumes "table_ok s"
  shows "table_ok (exec e s)"
proof (cases e)
  case (CreateTask nm descr ex options idTime rnd now)
  then show ?thesis using assms by (simp add: table_ok_createTask)
next
  case (Start now)
  show ?thesis unfolding Start
    by (rule table_ok_same_objects [OF assms same_objects_exec]) (simp_all add: start_def)
next
  case Stop
  show ?thesis unfolding Stop
    by (rule table_ok_same_objects [OF assms same_objects_exec]) (simp_all add: stop_def)
next
  case (LoopTimer now)
  show ?thesis unfolding LoopTimer
    by (rule table_ok_same_objects [OF assms same_objects_exec])
      (simp_all add: processQueue_resume_def)
next
  case (ExecTimer k now)
  show ?thesis unfolding ExecTimer
    by (rule table_ok_same_objects [OF assms same_objects_exec])
      (simp_all add: executeTask_resume_def split: prod.splits)
next
  case (PauseTask taskId)
  show ?thesis unfolding PauseTask
    by (rule table_ok_same_objects [OF assms same_objects_exec])
      (simp_all add: pauseTask_def split: option.splits)
next
  case (ResumeTask taskId)
  show ?thesis unfolding ResumeTask
    by (rule table_ok_same_objects [OF assms same_objects_exec])
      (simp_all add: resumeTask_def split: option.splits)
next
  case (CancelTask taskId)
  show ?thesis unfolding CancelTask
    by (rule table_ok_same_objects [OF assms same_objects_exec])
      (simp_all add: cancelTask_def split: option.splits)
next
  case ClearCompleted
  then show ?thesis using assms by (simp add: table_ok_clearCompleted)
qed

lemma table_ok_constructor: "table_ok (constructor cfg)"
  by (simp add: table_ok_def constructor_def)

lemma table_ok_run: "table_ok s \<Longrightarrow> table_ok (run es s)"
  by (induction es arbitrary: s) (auto simp: table_ok_exec)

lemma lookup_filtered_table:
  assumes "distinct (map fst table)"
  shows "map_of (filter keep table) taskId
           = Option.bind (map_of table taskId)
               (\<lambda>r. if keep (taskId, r) then Some r else None)"
  using assms
proof (induction table)
  case Nil
  show ?case by simp
next
  case (Cons entry table)
  obtain k r where entry: "entry = (k, r)"
    by (cases entry)
  from Cons.prems have "k \<notin> fst ` set table" and "distinct (map fst table)"
    by (simp_all add: entry)
  then show ?case
    using Cons.IH by (auto simp: entry map_of_eq_None_iff)
qed

lemma map_filter_filter:
  "(\<And>x t. x \<in> set xs \<Longrightarrow> f x = Some t \<Longrightarrow> P x = Q t) \<Longrightarrow>
   List.map_filter f (filter P xs) = filter Q (List.map_filter f xs)"
  by (induction xs) (auto simp: map_filter_simps split: option.splits)

text \<open>
  Claim C9. On every state that a run reaches from a constructed executor,
  \<open>clearCompleted\<close> removes from the table exactly the entries whose job is completed:
  the other entries stay, in their order and with the same objects, the store of task
  objects is untouched, and so are the queue, \<open>runningTasks\<close> and every other field.
\<close>

theorem clearCompleted_removes_exactly_completed:
  assumes "s = run es (constructor cfg)"
  shows "clearCompleted s
           = s\<lparr>tasks := filter (\<lambda>(k, r). map_option status (heap s r) \<noteq> Some completed)
                          (tasks s)\<rparr> \<and>
         tasks_get (clearCompleted s) taskId
           = (case tasks_get s taskId of
                None \<Rightarrow> None
              | Some t \<Rightarrow> if status t = completed then None else Some t) \<and>
         getAllTasks (clearCompleted s)
           = filter (\<lambda>t. status t \<noteq> completed) (getAllTasks s) \<and>
         heap (clearCompleted s) = heap s \<and>
         taskQueue (clearCompleted s) = taskQueue s \<and>
         runningTasks (clearCompleted s) = runningTasks s"
proof -
  have ok: "table_ok s"
    unfolding assms by (rule table_ok_run [OF table_ok_constructor])
  then have d: "distinct (map fst (tasks s))"
    by (simp add: table_ok_def)
  let ?P = "\<lambda>(k, r). map_option status (heap s r) \<noteq> Some completed"
  have t: "tasks (clearCompleted s) = filter ?P (tasks s)"
    using ok by (rule clearCompleted_filter)
  have a: "clearCompleted s = s\<lparr>tasks := filter ?P (tasks s)\<rparr>"
    using t by (simp add: clearCompleted_def)
  have h: "heap (clearCompleted s) = heap s"
    by (simp add: clearCompleted_def)
  have b: "tasks_get (clearCompleted s) taskId
      = (case tasks_get s taskId of
           None \<Rightarrow> None
         | Some t \<Rightarrow> if status t = completed then None else Some t)"
  proof (cases "map_of (tasks s) taskId")
    case None
    then show ?thesis
      by (simp add: tasks_get_def t h lookup_filtered_table [OF d])
  next
    case (Some r)
    then have "(taskId, r) \<in> set (tasks s)"
      by (rule map_of_SomeD)
    with ok obtain x where "heap s r = Some x"
      by (auto simp: table_ok_def)
    with Some show ?thesis
      by (simp add: tasks_get_def t h lookup_filtered_table [OF d])
  qed
  have c: "getAllTasks (clearCompleted s) = filter (\<lambda>t. status t \<noteq> completed) (getAllTasks s)"
    unfolding getAllTasks_def t h
    by (rule map_filter_filter) auto
  show ?thesis
    using a b c h by (simp add: clearCompleted_def)
qed

theorem clearCompleted_removes_exactly_completed_witness:
  "map fst (tasks sample_mixed) = [''task_1_a'', ''task_2_b''] \<and>
   status_of sample_mixed ''task_1_a'' = Some completed \<and>
   status_of sample_mixed ''task_2_b'' = Some queued \<and>
   tasks_get (clearCompleted sample_mixed) ''task_1_a'' = None \<and>
   tasks_get (clearCompleted sample_mixed) ''task_2_b'' = tasks_get sample_mixed ''task_2_b'' \<and>
   taskQueue (clearCompleted sample_mixed) = taskQueue sample_mixed"
proof -
  have r: "sample_mixed = run sample_mixed_events (constructor None)"
    by (simp add: sample_mixed_def)
  have e: "map fst (tasks sample_mixed) = [''task_1_a'', ''task_2_b'']"
    "status_of sample_mixed ''task_1_a'' = Some completed"
    "status_of sample_mixed ''task_2_b'' = Some queued"
    by code_simp+
  from e(2,3) obtain a b where ab: "tasks_get sample_mixed ''task_1_a'' = Some a"
    "status a = completed" "tasks_get sample_mixed ''task_2_b'' = Some b" "status b = queued"
    by (auto simp: status_of_def)
  have a1: "tasks_get (clearCompleted sample_mixed) ''task_1_a''
      = (case tasks_get sample_mixed ''task_1_a'' of
           None \<Rightarrow> None
         | Some t \<Rightarrow> if status t = completed then None else Some t)"
    using clearCompleted_removes_exactly_completed [OF r, of "''task_1_a''"] by (elim conjE)
  have a2: "tasks_get (clearCompleted sample_mixed) ''task_2_b''
      = (case tasks_get sample_mixed ''task_2_b'' of
           None \<Rightarrow> None
         | Some t \<Rightarrow> if status t = completed then None else Some t)"
    using clearCompleted_removes_exactly_completed [OF r, of "''task_2_b''"] by (elim conjE)
  have q: "taskQueue (clearCompleted sample_mixed) = taskQueue sample_mixed"
    using clearCompleted_removes_exactly_completed [OF r, of "''task_2_b''"] by (elim conjE)
  have b1: "tasks_get (clearCompleted sample_mixed) ''task_1_a'' = None"
    unfolding a1 using ab(1,2) by simp
  have b2: "tasks_get (clearCompleted sample_mixed) ''task_2_b'' = tasks_get sample_mixed ''task_2_b''"
    unfolding a2 using ab(3,4) by simp
  show ?thesis
    by (intro conjI e b1 b2 q)
qed

subsection \<open>The effect of each operation on the queue and the statuses\<close>

lemma run_append: "run (es @ es') s = run es' (run es s)"
  by (induction es arbitrary: s) auto

lemma table_ok_entry:
  "table_ok s \<Longrightarrow> map_of (tasks s) k = Some r \<Longrightarrow> \<exists>t. heap s r = Some t \<and> task_id t = k"
  by (auto simp: table_ok_def dest!: map_of_SomeD)

lemma status_of_heap_upd:
  assumes ok: "table_ok s" and T: "map_of (tasks s) T = Some r"
    and tk: "tasks s' = tasks s" and hp: "heap s' = (heap s)(r \<mapsto> t')"
  shows "status_of s' k = (if k = T then Some (status t') else status_of s k)"
proof (cases "k = T")
  case True
  then show ?thesis using T tk hp by (simp add: status_of_def tasks_get_def)
next
  case False
  show ?thesis
  proof (cases "map_of (tasks s) k")
    case None
    then show ?thesis using False tk by (simp add: status_of_def tasks_get_def)
  next
    case (Some r')
    from table_ok_entry [OF ok Some] table_ok_entry [OF ok T] False have "r' \<noteq> r"
      by auto
    then show ?thesis using False Some tk hp by (simp add: status_of_def tasks_get_def)
  qed
qed

lemma status_of_same:
  "tasks s' = tasks s \<Longrightarrow> heap s' = heap s \<Longrightarrow> status_of s' = status_of s"
  by (simp add: status_of_def tasks_get_def fun_eq_iff cong: option.case_cong)

lemma status_of_None_iff: "status_of s k = None \<longleftrightarrow> tasks_get s k = None"
  by (simp add: status_of_def)

text \<open>pauseTask\<close>

lemma taskQueue_pauseTask [simp]: "taskQueue (pauseTask T s) = taskQueue s"
  by (auto simp: pauseTask_def split: option.splits)

lemma status_of_pauseTask_any:
  assumes "table_ok s"
  shows "status_of (pauseTask T s) k
           = (if k = T \<and> status_of s T = Some running then Some paused else status_of s k)"
proof (cases "status_of s T = Some running")
  case False
  then show ?thesis by (simp add: pauseTask_noop)
next
  case True
  then obtain r t where rt: "map_of (tasks s) T = Some r" "heap s r = Some t" "status t = running"
    by (auto simp: status_of_def tasks_get_def split: option.splits)
  have "status_of (pauseTask T s) k = (if k = T then Some (status (t\<lparr>status := paused\<rparr>)) else status_of s k)"
    by (rule status_of_heap_upd [OF assms rt(1)]) (simp_all add: pauseTask_def rt)
  then show ?thesis using True by simp
qed

text \<open>cancelTask\<close>

lemma cancelTask_absent: "status_of s T = None \<Longrightarrow> cancelTask T s = s"
  by (auto simp: cancelTask_def status_of_def tasks_get_def split: option.splits)

lemma taskQueue_cancelTask:
  "status_of s T \<noteq> None \<Longrightarrow> taskQueue (cancelTask T s) = remove1 T (taskQueue s)"
  by (auto simp: cancelTask_def status_of_def tasks_get_def split: option.splits)

lemma status_of_cancelTask:
  assumes "table_ok s"
  shows "status_of (cancelTask T s) k
           = (if k = T \<and> status_of s T \<noteq> None then Some failed else status_of s k)"
proof (cases "status_of s T = None")
  case True
  then show ?thesis by (simp add: cancelTask_absent)
next
  case False
  then obtain r t where rt: "map_of (tasks s) T = Some r" "heap s r = Some t"
    by (auto simp: status_of_def tasks_get_def split: option.splits)
  have "status_of (cancelTask T s) k
      = (if k = T then Some (status (t\<lparr>status := failed, error := Some ''Cancelled by user''\<rparr>))
         else status_of s k)"
    by (rule status_of_heap_upd [OF assms rt(1)]) (simp_all add: cancelTask_def rt)
  then show ?thesis using False by simp
qed

text \<open>queueTask and resumeTask\<close>

lemma set_splice_in [simp]: "set (splice_in i x xs) = insert x (set xs)"
proof -
  have "set (take i xs) \<union> set (drop i xs) = set xs"
    by (metis append_take_drop_id set_append)
  then show ?thesis by (auto simp: splice_in_def)
qed

lemma distinct_splice_in [simp]: "distinct (splice_in i x xs) = (x \<notin> set xs \<and> distinct xs)"
proof -
  have "set (take i xs) \<union> set (drop i xs) = set xs"
    by (metis append_take_drop_id set_append)
  moreover have "distinct (take i xs @ drop i xs) = distinct xs"
    by simp
  ultimately show ?thesis
    unfolding splice_in_def by (auto simp del: append_take_drop_id)
qed

lemma status_of_queueTask [simp]: "status_of (queueTask T s) = status_of s"
  by (simp add: status_of_def fun_eq_iff)

lemma set_taskQueue_queueTask:
  "status_of s T \<noteq> None \<Longrightarrow> set (taskQueue (queueTask T s)) = insert T (set (taskQueue s))"
  by (auto simp: queueTask_def status_of_def split: option.splits)

lemma distinct_taskQueue_queueTask:
  "status_of s T \<noteq> None \<Longrightarrow>
   distinct (taskQueue (queueTask T s)) = (T \<notin> set (taskQueue s) \<and> distinct (taskQueue s))"
  by (auto simp: queueTask_def status_of_def split: option.splits)

lemma resumeTask_effect:
  assumes "table_ok s" and "status_of s T = Some paused"
  shows "status_of (resumeTask T s) k = (if k = T then Some queued else status_of s k)"
    and "set (taskQueue (resumeTask T s)) = insert T (set (taskQueue s))"
    and "distinct (taskQueue (resumeTask T s)) = (T \<notin> set (taskQueue s) \<and> distinct (taskQueue s))"
proof -
  from assms(2) obtain r t where rt: "map_of (tasks s) T = Some r" "heap s r = Some t" "status t = paused"
    by (auto simp: status_of_def tasks_get_def split: option.splits)
  let ?s1 = "s\<lparr>heap := (heap s)(r \<mapsto> t\<lparr>status := queued\<rparr>)\<rparr>"
  have r: "resumeTask T s = queueTask T ?s1"
    using rt by (simp add: resumeTask_def)
  have s1: "status_of ?s1 k = (if k = T then Some (status (t\<lparr>status := queued\<rparr>)) else status_of s k)" for k
    by (rule status_of_heap_upd [OF assms(1) rt(1)]) simp_all
  then have n: "status_of ?s1 T \<noteq> None" by simp
  show "status_of (resumeTask T s) k = (if k = T then Some queued else status_of s k)"
    using s1 [of k] by (simp add: r)
  show "set (taskQueue (resumeTask T s)) = insert T (set (taskQueue s))"
    unfolding r using set_taskQueue_queueTask [OF n] by simp
  show "distinct (taskQueue (resumeTask T s)) = (T \<notin> set (taskQueue s) \<and> distinct (taskQueue s))"
    unfolding r using distinct_taskQueue_queueTask [OF n] by simp
qed

text \<open>executeTask_resume\<close>

lemma taskQueue_mutate [simp]: "taskQueue (mutate r f s) = taskQueue s"
  by (auto simp: mutate_def split: option.splits)

lemma taskQueue_executeTask_resume [simp]: "taskQueue (executeTask_resume k now s) = taskQueue s"
  by (auto simp: executeTask_resume_def split: prod.splits)

lemma status_of_mutate_same:
  "(\<And>t. status (f t) = status t) \<Longrightarrow> status_of (mutate r f s) k = status_of s k"
  by (auto simp: mutate_def status_of_def tasks_get_def split: option.splits)

lemma status_of_mutate_const:
  "(\<And>t. status (f t) = c) \<Longrightarrow>
   status_of (mutate r f s) k = status_of s k \<or> status_of (mutate r f s) k = Some c"
  by (auto simp: mutate_def status_of_def tasks_get_def split: option.splits)

lemma status_of_executeTask_resume:
  "status_of (executeTask_resume j now s) k = status_of s k \<or>
   status_of (executeTask_resume j now s) k = Some completed"
proof (cases "j < length (executions s)")
  case False
  then show ?thesis by (simp add: executeTask_resume_def)
next
  case True
  obtain r taskId i where e: "executions s ! j = (r, taskId, i)"
    by (cases "executions s ! j")
  show ?thesis
  proof (cases "i + 10 \<le> 100")
    case le: True
    let ?s1 = "s\<lparr>executions := (executions s)[j := (r, taskId, i + 10)]\<rparr>"
    have "status_of ?s1 = status_of s"
      by (rule status_of_same) simp_all
    then show ?thesis
      using True e le status_of_mutate_same [of "\<lambda>task. task\<lparr>progress := i + 10\<rparr>" r ?s1 k]
      by (simp add: executeTask_resume_def)
  next
    case gt: False
    let ?s1 = "s\<lparr>executions := take j (executions s) @ drop (Suc j) (executions s)\<rparr>"
    let ?f = "\<lambda>task. task\<lparr>status := completed, completedAt := Some now, progress := 100,
        result := Some (True, ''Task '' @ name task @ '' completed successfully'')\<rparr>"
    have a: "status_of ?s1 = status_of s"
      by (rule status_of_same) simp_all
    have b: "status_of ((mutate r ?f ?s1)\<lparr>runningTasks := set_delete taskId (runningTasks s)\<rparr>)
        = status_of (mutate r ?f ?s1)"
      by (rule status_of_same) simp_all
    show ?thesis
      using True e gt status_of_mutate_const [of ?f completed r ?s1 k] a b
      by (auto simp: executeTask_resume_def)
  qed
qed

text \<open>createTask\<close>

lemma createTask_effect:
  fixes nm descr ex options idTime rnd now s
  assumes "table_ok s"
  defines "s' \<equiv> snd (createTask nm descr ex options idTime rnd now s)"
  shows "\<exists>t. tasks_get s' (generateTaskId idTime rnd) = Some t \<and> status t = queued \<and>
           priority t = (case Option.bind options o_priority of None \<Rightarrow> medium | Some p \<Rightarrow> p) \<and>
           dependencies t = (case Option.bind options o_dependencies of None \<Rightarrow> [] | Some ds \<Rightarrow> ds) \<and>
           taskQueue s' = splice_in (insertIndex (tasks_get s') (priorityOrder (priority t))
                            (taskQueue s)) (generateTaskId idTime rnd) (taskQueue s)"
    and "k \<noteq> generateTaskId idTime rnd \<Longrightarrow> tasks_get s' k = tasks_get s k"
    and "fst ` set (tasks s') = insert (generateTaskId idTime rnd) (fst ` set (tasks s))"
proof -
  let ?k = "generateTaskId idTime rnd"
  define task where "task = \<lparr> task_id = ?k, name = nm, description = descr,
      priority = (case Option.bind options o_priority of None \<Rightarrow> medium | Some p \<Rightarrow> p),
      status = queued, progress = 0, createdAt = now,
      startedAt = None, completedAt = None, result = None, error = None,
      dependencies = (case Option.bind options o_dependencies of None \<Rightarrow> [] | Some ds \<Rightarrow> ds),
      retries = 0,
      maxRetries = num_or (Option.bind options o_maxRetries) (defaultMaxRetries (config s)) \<rparr>"
  define s1 where "s1 = s\<lparr>heap := (heap s)(nextRef s \<mapsto> task), nextRef := Suc (nextRef s),
      tasks := AList.update ?k (nextRef s) (tasks s)\<rparr>"
  have s': "s' = queueTask ?k s1"
    by (simp add: s'_def createTask_def Let_def s1_def task_def)
  have g: "tasks_get s1 ?k = Some task"
    by (simp add: s1_def tasks_get_def update_conv')
  have q: "taskQueue s' = splice_in (insertIndex (tasks_get s1) (priorityOrder (priority task))
      (taskQueue s)) ?k (taskQueue s)"
    using g by (simp add: s' queueTask_def s1_def)
  have "tasks_get s' ?k = Some task \<and> status task = queued \<and>
      priority task = (case Option.bind options o_priority of None \<Rightarrow> medium | Some p \<Rightarrow> p) \<and>
      dependencies task = (case Option.bind options o_dependencies of None \<Rightarrow> [] | Some ds \<Rightarrow> ds) \<and>
      taskQueue s' = splice_in (insertIndex (tasks_get s') (priorityOrder (priority task))
                            (taskQueue s)) ?k (taskQueue s)"
    using g q by (simp add: s' task_def)
  then show "\<exists>t. tasks_get s' ?k = Some t \<and> status t = queued \<and>
           priority t = (case Option.bind options o_priority of None \<Rightarrow> medium | Some p \<Rightarrow> p) \<and>
           dependencies t = (case Option.bind options o_dependencies of None \<Rightarrow> [] | Some ds \<Rightarrow> ds) \<and>
           taskQueue s' = splice_in (insertIndex (tasks_get s') (priorityOrder (priority t))
                            (taskQueue s)) ?k (taskQueue s)"
    by blast
  show "tasks_get s' k = tasks_get s k" if "k \<noteq> ?k"
  proof (cases "map_of (tasks s) k")
    case None
    then show ?thesis
      using that by (simp add: s'_def createTask_def Let_def tasks_get_def update_conv')
  next
    case (Some r)
    from table_ok_entry [OF assms(1) Some] assms(1) have "r \<noteq> nextRef s"
      by (auto simp: table_ok_def)
    then show ?thesis
      using that Some by (simp add: s'_def createTask_def Let_def tasks_get_def update_conv')
  qed
  show "fst ` set (tasks s') = insert ?k (fst ` set (tasks s))"
    by (simp add: s'_def createTask_def Let_def dom_update)
qed

text \<open>executeTask and processQueue_iteration\<close>

lemma executeTask_effect:
  fixes T now s
  assumes "table_ok s"
  defines "s' \<equiv> executeTask T now s"
  shows "s' = s \<or>
         (status_of s T \<noteq> None \<and> taskQueue s' = taskQueue s @ [T] \<and> status_of s' = status_of s) \<or>
         (taskQueue s' = taskQueue s \<and>
          (\<forall>k. status_of s' k = (if k = T then Some running else status_of s k)))"
proof (cases "map_of (tasks s) T")
  case None
  then show ?thesis by (simp add: s'_def executeTask_def)
next
  case (Some r)
  show ?thesis
  proof (cases "heap s r")
    case None
    then show ?thesis using Some by (simp add: s'_def executeTask_def)
  next
    case (Some t)
    note rt = \<open>map_of (tasks s) T = Some r\<close> Some
    show ?thesis
    proof (cases "length (dependencies t) > 0 \<and> \<not> list_all (depCompleted s) (dependencies t)")
      case True
      then have "s' = s\<lparr>taskQueue := taskQueue s @ [T]\<rparr>"
        using rt by (simp add: s'_def executeTask_def)
      moreover have "status_of (s\<lparr>taskQueue := taskQueue s @ [T]\<rparr>) = status_of s"
        by (rule status_of_same) simp_all
      moreover have "status_of s T \<noteq> None"
        using rt by (simp add: status_of_def tasks_get_def)
      ultimately show ?thesis by simp
    next
      case False
      let ?t = "t\<lparr>status := running, startedAt := Some now, progress := 0\<rparr>"
      have e: "s' = s\<lparr>runningTasks := set_add T (runningTasks s),
                     heap := (heap s)(r \<mapsto> ?t),
                     executions := executions s @ [(r, T, 0)]\<rparr>"
        using rt False by (auto simp: s'_def executeTask_def)
      have "status_of s' k = (if k = T then Some (status ?t) else status_of s k)" for k
        by (rule status_of_heap_upd [OF assms(1) rt(1)]) (simp_all add: e)
      moreover have "taskQueue s' = taskQueue s"
        by (simp add: e)
      ultimately show ?thesis by simp
    qed
  qed
qed

lemma table_ok_taskQueue_upd [simp]: "table_ok (s\<lparr>taskQueue := q\<rparr>) = table_ok s"
  by (simp add: table_ok_def)

lemma table_ok_isRunning_upd [simp]: "table_ok (s\<lparr>isRunning := b\<rparr>) = table_ok s"
  by (simp add: table_ok_def)

lemma status_of_taskQueue_upd [simp]: "status_of (s\<lparr>taskQueue := q\<rparr>) = status_of s"
  by (rule status_of_same) simp_all

lemma status_of_isRunning_upd [simp]: "status_of (s\<lparr>isRunning := b\<rparr>) = status_of s"
  by (rule status_of_same) simp_all

lemma status_of_loops_upd [simp]: "status_of (s\<lparr>loops := n\<rparr>) = status_of s"
  by (rule status_of_same) simp_all

lemma iteration_effect:
  fixes now s
  assumes "table_ok s"
  defines "s' \<equiv> processQueue_iteration now s"
  shows "s' = s \<or>
         (\<exists>T rest. taskQueue s = T # rest \<and>
            ((taskQueue s' = rest \<and> status_of s' = status_of s) \<or>
             (status_of s T \<noteq> None \<and> taskQueue s' = rest @ [T] \<and> status_of s' = status_of s) \<or>
             (taskQueue s' = rest \<and>
              (\<forall>k. status_of s' k = (if k = T then Some running else status_of s k)))))"
proof (cases "int (length (runningTasks s)) < maxConcurrent (config s) \<and> length (taskQueue s) > 0")
  case False
  then show ?thesis by (simp add: s'_def processQueue_iteration_def)
next
  case True
  then obtain T rest where q: "taskQueue s = T # rest"
    by (cases "taskQueue s") auto
  show ?thesis
  proof (cases "T = []")
    case True
    then have "s' = s\<lparr>taskQueue := rest\<rparr>"
      using \<open>int (length (runningTasks s)) < maxConcurrent (config s) \<and> length (taskQueue s) > 0\<close> q
      by (simp add: s'_def processQueue_iteration_def)
    then show ?thesis using q by simp
  next
    case False
    let ?s1 = "s\<lparr>taskQueue := rest\<rparr>"
    have e: "s' = executeTask T now ?s1"
      using True q False by (simp add: s'_def processQueue_iteration_def)
    have ok: "table_ok ?s1" using assms(1) by simp
    from executeTask_effect [OF ok, of T now] show ?thesis
      unfolding e [symmetric] using q by auto
  qed
qed

subsection \<open>Status changes\<close>

lemma heap_executeTask:
  assumes "table_ok s" and "heap s r = Some t" and "heap (executeTask T now s) r = Some t'"
    and "status t' \<noteq> status t"
  shows "status t' = running \<and> task_id t = T"
proof -
  from assms(2,3,4) obtain r' where r': "map_of (tasks s) T = Some r'"
    by (cases "map_of (tasks s) T") (auto simp: executeTask_def)
  from assms(2,3,4) r' have "r' = r \<and> status t' = running"
    by (auto simp: executeTask_def split: option.splits if_splits)
  with table_ok_entry [OF assms(1) r'] assms(2) show ?thesis by auto
qed

lemma heap_iteration:
  assumes "table_ok s" and "heap s r = Some t" and "heap (processQueue_iteration now s) r = Some t'"
    and "status t' \<noteq> status t"
  shows "status t' = running \<and> (\<exists>rest. taskQueue s = task_id t # rest)"
proof (cases "int (length (runningTasks s)) < maxConcurrent (config s) \<and> length (taskQueue s) > 0")
  case False
  then have "processQueue_iteration now s = s"
    by (auto simp: processQueue_iteration_def)
  then show ?thesis using assms by simp
next
  case True
  then obtain T rest where q: "taskQueue s = T # rest"
    by (cases "taskQueue s") auto
  show ?thesis
  proof (cases "T = []")
    case empty: True
    have "processQueue_iteration now s = s\<lparr>taskQueue := rest\<rparr>"
      using True q empty by (simp add: processQueue_iteration_def)
    then show ?thesis
      using assms by simp
  next
    case False
    have e: "processQueue_iteration now s = executeTask T now (s\<lparr>taskQueue := rest\<rparr>)"
      using True q False by (simp add: processQueue_iteration_def)
    have "status t' = running \<and> task_id t = T"
      by (rule heap_executeTask [where s = "s\<lparr>taskQueue := rest\<rparr>" and r = r and now = now])
        (use assms e in simp_all)
    then show ?thesis using q by simp
  qed
qed

lemma heap_resume:
  assumes "heap s r = Some t" and "heap (executeTask_resume k now s) r = Some t'"
    and "status t' \<noteq> status t"
  shows "status t' = completed \<and> k < length (executions s) \<and>
         (\<exists>taskId i. executions s ! k = (r, taskId, i) \<and> 90 < i)"
  using assms
  by (auto simp: executeTask_resume_def mutate_def split: if_splits prod.splits option.splits)

lemma heap_control:
  assumes "table_ok s" and "heap s r = Some t"
  shows "heap (pauseTask T s) r = Some t' \<Longrightarrow> status t' \<noteq> status t \<Longrightarrow>
           task_id t = T \<and> status t = running \<and> status t' = paused"
    and "heap (resumeTask T s) r = Some t' \<Longrightarrow> status t' \<noteq> status t \<Longrightarrow>
           task_id t = T \<and> status t = paused \<and> status t' = queued"
    and "heap (cancelTask T s) r = Some t' \<Longrightarrow> status t' \<noteq> status t \<Longrightarrow>
           task_id t = T \<and> status t' = failed"
proof -
  have same: "task_id t = T" if "map_of (tasks s) T = Some r"
    using table_ok_entry [OF assms(1) that] assms(2) by simp
  show "heap (pauseTask T s) r = Some t' \<Longrightarrow> status t' \<noteq> status t \<Longrightarrow>
           task_id t = T \<and> status t = running \<and> status t' = paused"
    using assms(2) same by (auto simp: pauseTask_def split: option.splits if_splits)
  show "heap (resumeTask T s) r = Some t' \<Longrightarrow> status t' \<noteq> status t \<Longrightarrow>
           task_id t = T \<and> status t = paused \<and> status t' = queued"
    using assms(2) same by (auto simp: resumeTask_def split: option.splits if_splits)
  show "heap (cancelTask T s) r = Some t' \<Longrightarrow> status t' \<noteq> status t \<Longrightarrow>
           task_id t = T \<and> status t' = failed"
    using assms(2) same by (auto simp: cancelTask_def split: option.splits if_splits)
qed

lemma heap_createTask_old:
  assumes "table_ok s" and "heap s r = Some t"
  shows "heap (snd (createTask nm descr ex options idTime rnd now s)) r = Some t"
proof -
  from assms have "r \<noteq> nextRef s"
    by (auto simp: table_ok_def)
  then show ?thesis
    using assms(2) by (simp add: createTask_def Let_def)
qed

text \<open>
  Claim C4, as amended. In a run from a constructed executor, the status of a job
  changes only in these ways: \<open>cancelTask\<close> on its id sets \<open>failed\<close>, from any
  status; \<open>pauseTask\<close> takes it from \<open>running\<close> to \<open>paused\<close>; \<open>resumeTask\<close> takes it
  from \<open>paused\<close> to \<open>queued\<close>; the control loop sets \<open>running\<close> on the job at the head
  of the queue; the end of an execution that holds the job sets \<open>completed\<close>.
\<close>

theorem status_changes_by_event:
  assumes "s = run es (constructor cfg)"
    and "heap s r = Some t" and "heap (exec e s) r = Some t'" and "status t' \<noteq> status t"
  shows "(\<exists>taskId. e = CancelTask taskId \<and> task_id t = taskId \<and> status t' = failed) \<or>
         (\<exists>taskId. e = PauseTask taskId \<and> task_id t = taskId \<and>
            status t = running \<and> status t' = paused) \<or>
         (\<exists>taskId. e = ResumeTask taskId \<and> task_id t = taskId \<and>
            status t = paused \<and> status t' = queued) \<or>
         (\<exists>now rest. (e = Start now \<or> e = LoopTimer now) \<and> taskQueue s = task_id t # rest \<and>
            status t' = running) \<or>
         (\<exists>k now taskId i. e = ExecTimer k now \<and> k < length (executions s) \<and>
            executions s ! k = (r, taskId, i) \<and> 90 < i \<and> status t' = completed)"
proof -
  have ok: "table_ok s"
    unfolding assms(1) by (rule table_ok_run [OF table_ok_constructor])
  show ?thesis
  proof (cases e)
    case (CreateTask nm descr ex options idTime rnd now)
    then show ?thesis
      using assms(3,4) heap_createTask_old [OF ok assms(2)] by simp
  next
    case (Start now)
    have "status t' = running \<and> (\<exists>rest. taskQueue s = task_id t # rest)"
    proof (rule heap_iteration [where s = "s\<lparr>isRunning := True\<rparr>" and r = r and now = now, simplified])
      show "table_ok s" by (rule ok)
      show "heap s r = Some t" by (rule assms(2))
      show "heap (processQueue_iteration now (s\<lparr>isRunning := True\<rparr>)) r = Some t'"
        using assms(2,3,4) Start by (auto simp: start_def split: if_splits)
      show "status t' \<noteq> status t" by (rule assms(4))
    qed
    then show ?thesis using Start by auto
  next
    case Stop
    then show ?thesis using assms(2,3,4) by (simp add: stop_def)
  next
    case (LoopTimer now)
    have "status t' = running \<and> (\<exists>rest. taskQueue s = task_id t # rest)"
    proof (rule heap_iteration [OF ok assms(2) _ assms(4)])
      show "heap (processQueue_iteration now s) r = Some t'"
        using assms(2,3,4) LoopTimer by (auto simp: processQueue_resume_def split: if_splits)
    qed
    then show ?thesis using LoopTimer by auto
  next
    case (ExecTimer k now)
    then show ?thesis
      using heap_resume [OF assms(2) _ assms(4), of k now] assms(3) by auto
  next
    case (PauseTask taskId)
    then show ?thesis
      using heap_control(1) [OF ok assms(2) _ assms(4), of taskId] assms(3) by auto
  next
    case (ResumeTask taskId)
    then show ?thesis
      using heap_control(2) [OF ok assms(2) _ assms(4), of taskId] assms(3) by auto
  next
    case (CancelTask taskId)
    then show ?thesis
      using heap_control(3) [OF ok assms(2) _ assms(4), of taskId] assms(3) by auto
  next
    case ClearCompleted
    then show ?thesis using assms(2,3,4) by (simp add: clearCompleted_def)
  qed
qed

theorem status_changes_by_event_witness:
  "map_option status (heap sample_completed 0) = Some completed \<and>
   map_option status (heap (exec (CancelTask ''task_5_x'') sample_completed) 0) = Some failed \<and>
   map_option task_id (heap sample_completed 0) = Some ''task_5_x''"
proof -
  have r: "sample_completed
      = run ([sample_create, Start 6] @ replicate 11 (ExecTimer 0 7)) (constructor None)"
    by (simp only: sample_completed_def sample_started_def run_append)
  have a: "map_option status (heap sample_completed 0) = Some completed"
    by code_simp
  have b: "map_option status (heap (exec (CancelTask ''task_5_x'') sample_completed) 0)
      = Some failed"
    by code_simp
  from a obtain t where t: "heap sample_completed 0 = Some t" "status t = completed"
    by auto
  from b obtain t' where t': "heap (exec (CancelTask ''task_5_x'') sample_completed) 0 = Some t'"
    "status t' = failed"
    by auto
  have n: "status t' \<noteq> status t"
    by (simp add: t t')
  from status_changes_by_event [OF r t(1) t'(1) n] have "task_id t = ''task_5_x''"
    by simp
  then have c: "map_option task_id (heap sample_completed 0) = Some ''task_5_x''"
    by (simp add: t)
  show ?thesis
    by (intro conjI a b c)
qed

text \<open>
  Claim C4 as stated fails: terminal states are left. \<open>cancelTask\<close> turns the completed
  sample job into a failed one; the job cancelled while it runs is failed, and completed
  when its execution ends; the paused job is failed by \<open>cancelTask\<close>, and completed when
  its execution ends.
\<close>

theorem terminal_status_changes:
  "status_of sample_completed ''task_5_x'' = Some completed \<and>
   status_of (exec (CancelTask ''task_5_x'') sample_completed) ''task_5_x'' = Some failed \<and>
   status_of (exec (CancelTask ''task_5_x'') sample_started) ''task_5_x'' = Some failed \<and>
   status_of (run (replicate 11 (ExecTimer 0 7)) (exec (CancelTask ''task_5_x'') sample_started))
     ''task_5_x'' = Some completed \<and>
   status_of (exec (PauseTask ''task_5_x'') sample_started) ''task_5_x'' = Some paused \<and>
   status_of (exec (CancelTask ''task_5_x'') (exec (PauseTask ''task_5_x'') sample_started))
     ''task_5_x'' = Some failed \<and>
   status_of (run (replicate 11 (ExecTimer 0 7)) (exec (PauseTask ''task_5_x'') sample_started))
     ''task_5_x'' = Some completed"
  by code_simp

subsection \<open>The queue in runs with distinct ids\<close>

lemma tasks_get_clearCompleted:
  assumes "table_ok s"
  shows "tasks_get (clearCompleted s) taskId
      = (case tasks_get s taskId of
           None \<Rightarrow> None
         | Some t \<Rightarrow> if status t = completed then None else Some t)"
proof -
  from assms have d: "distinct (map fst (tasks s))"
    by (simp add: table_ok_def)
  have t: "tasks (clearCompleted s)
      = filter (\<lambda>(k, r). map_option status (heap s r) \<noteq> Some completed) (tasks s)"
    using assms by (rule clearCompleted_filter)
  have h: "heap (clearCompleted s) = heap s"
    by (simp add: clearCompleted_def)
  show ?thesis
  proof (cases "map_of (tasks s) taskId")
    case None
    then show ?thesis
      by (simp add: tasks_get_def t h lookup_filtered_table [OF d])
  next
    case (Some r)
    with table_ok_entry [OF assms Some] show ?thesis
      by (auto simp: tasks_get_def t h lookup_filtered_table [OF d])
  qed
qed

lemma status_of_clearCompleted:
  "table_ok s \<Longrightarrow>
   status_of (clearCompleted s) k = None \<or> status_of (clearCompleted s) k = status_of s k"
  by (auto simp: status_of_def tasks_get_clearCompleted split: option.splits)

lemma taskQueue_clearCompleted [simp]: "taskQueue (clearCompleted s) = taskQueue s"
  by (simp add: clearCompleted_def)

lemma queue_ok_cong:
  "taskQueue s' = taskQueue s \<Longrightarrow> status_of s' = status_of s \<Longrightarrow> queue_ok s' = queue_ok s"
  by (simp add: queue_ok_def)

lemma cancelled_out_cong:
  "taskQueue s' = taskQueue s \<Longrightarrow> status_of s' = status_of s \<Longrightarrow>
   cancelled_out T s' = cancelled_out T s"
  by (simp add: cancelled_out_def)

lemma iteration_cases [consumes 1, case_names idle dropped deferred started]:
  assumes "table_ok s"
  obtains "processQueue_iteration now s = s"
  | T rest where "taskQueue s = T # rest" "taskQueue (processQueue_iteration now s) = rest"
      "status_of (processQueue_iteration now s) = status_of s"
  | T rest where "taskQueue s = T # rest" "taskQueue (processQueue_iteration now s) = rest @ [T]"
      "status_of (processQueue_iteration now s) = status_of s"
  | T rest where "taskQueue s = T # rest" "taskQueue (processQueue_iteration now s) = rest"
      "\<And>k. status_of (processQueue_iteration now s) k
             = (if k = T then Some running else status_of s k)"
  using iteration_effect [OF assms, of now] by blast

lemma queue_ok_iteration:
  assumes "table_ok s" and "queue_ok s"
  shows "queue_ok (processQueue_iteration now s)"
  using assms(1)
proof (cases rule: iteration_cases [where now = now])
  case idle
  then show ?thesis using assms(2) by simp
next
  case (dropped T rest)
  then show ?thesis using assms(2) by (simp add: queue_ok_def)
next
  case (deferred T rest)
  then show ?thesis using assms(2) by (auto simp: queue_ok_def)
next
  case (started T rest)
  from assms(2) started(1) have "distinct rest" "T \<notin> set rest"
    "\<forall>k \<in> set rest. status_of s k \<notin> {Some running, Some paused, Some failed}"
    by (simp_all add: queue_ok_def)
  then show ?thesis
    unfolding queue_ok_def started(2) by (auto simp: started(3))
qed

lemma cancelled_out_iteration:
  assumes "table_ok s" and "cancelled_out T s"
  shows "cancelled_out T (processQueue_iteration now s)"
  using assms(1)
proof (cases rule: iteration_cases [where now = now])
  case idle
  then show ?thesis using assms(2) by simp
next
  case (dropped T' rest)
  then show ?thesis using assms(2) by (simp add: cancelled_out_def)
next
  case (deferred T' rest)
  then show ?thesis using assms(2) by (auto simp: cancelled_out_def)
next
  case (started T' rest)
  from assms(2) started(1) have "T \<noteq> T'" "T \<notin> set rest"
    "status_of s T \<notin> {Some queued, Some running, Some paused}"
    by (auto simp: cancelled_out_def)
  then show ?thesis
    unfolding cancelled_out_def started(2) by (simp add: started(3))
qed

lemma queue_ok_step:
  assumes "queue_ok s" and "distinct (taskQueue s')"
    and "\<And>k. k \<in> set (taskQueue s') \<Longrightarrow>
           (k \<in> set (taskQueue s) \<and> status_of s' k = status_of s k) \<or>
           status_of s' k \<notin> {Some running, Some paused, Some failed}"
  shows "queue_ok s'"
  unfolding queue_ok_def
proof (intro conjI ballI)
  show "distinct (taskQueue s')" by (rule assms(2))
  fix k
  assume "k \<in> set (taskQueue s')"
  from assms(3) [OF this] assms(1)
  show "status_of s' k \<notin> {Some running, Some paused, Some failed}"
    unfolding queue_ok_def by metis
qed

lemma cancelled_out_step:
  assumes "cancelled_out T s" and "set (taskQueue s') \<subseteq> set (taskQueue s) \<union> A" and "T \<notin> A"
    and "status_of s' T = status_of s T \<or>
         status_of s' T \<notin> {Some queued, Some running, Some paused}"
  shows "cancelled_out T s'"
  using assms unfolding cancelled_out_def by auto

lemma queue_ok_exec:
  assumes ok: "table_ok s" and q: "queue_ok s"
    and fresh: "\<And>k. created_id e = Some k \<Longrightarrow> k \<notin> set (taskQueue s)"
  shows "queue_ok (exec e s)"
proof (cases e)
  case (CreateTask nm descr ex options idTime rnd now)
  let ?k = "generateTaskId idTime rnd"
  let ?s' = "snd (createTask nm descr ex options idTime rnd now s)"
  from createTask_effect(1) [OF ok, of nm descr ex options idTime rnd now]
  obtain t i where t: "tasks_get ?s' ?k = Some t" "status t = queued"
    "taskQueue ?s' = splice_in i ?k (taskQueue s)"
    by blast
  have o: "status_of ?s' k = status_of s k" if "k \<noteq> ?k" for k
    using createTask_effect(2) [OF ok that, of nm descr ex options now] by (simp add: status_of_def)
  have n: "status_of ?s' ?k = Some queued"
    using t by (simp add: status_of_def)
  have f: "?k \<notin> set (taskQueue s)"
    using fresh CreateTask by simp
  have "queue_ok ?s'"
  proof (rule queue_ok_step [OF q])
    show "distinct (taskQueue ?s')"
      using q f by (simp add: t(3) queue_ok_def)
    fix k
    assume "k \<in> set (taskQueue ?s')"
    then have "k = ?k \<or> (k \<in> set (taskQueue s) \<and> k \<noteq> ?k)"
      using f by (auto simp: t(3))
    then show "(k \<in> set (taskQueue s) \<and> status_of ?s' k = status_of s k) \<or>
           status_of ?s' k \<notin> {Some running, Some paused, Some failed}"
      using n o by auto
  qed
  then show ?thesis using CreateTask by simp
next
  case (Start now)
  show ?thesis
  proof (cases "isRunning s")
    case True
    then show ?thesis using q Start by (simp add: start_def)
  next
    case False
    have "queue_ok (s\<lparr>isRunning := True\<rparr>)"
      using q by (simp add: queue_ok_def)
    then have "queue_ok (processQueue_iteration now (s\<lparr>isRunning := True\<rparr>))"
      using ok by (intro queue_ok_iteration) simp_all
    then show ?thesis
      using False Start by (simp add: start_def queue_ok_def)
  qed
next
  case Stop
  then show ?thesis using q by (simp add: stop_def queue_ok_def)
next
  case (LoopTimer now)
  then show ?thesis
    using q queue_ok_iteration [OF ok q, of now]
    by (simp add: processQueue_resume_def queue_ok_def)
next
  case (ExecTimer j now)
  have "queue_ok (executeTask_resume j now s)"
  proof (rule queue_ok_step [OF q])
    show "distinct (taskQueue (executeTask_resume j now s))"
      using q by (simp add: queue_ok_def)
    fix k
    assume "k \<in> set (taskQueue (executeTask_resume j now s))"
    then show "(k \<in> set (taskQueue s) \<and> status_of (executeTask_resume j now s) k = status_of s k) \<or>
           status_of (executeTask_resume j now s) k \<notin> {Some running, Some paused, Some failed}"
      using status_of_executeTask_resume [of j now s k] by auto
  qed
  then show ?thesis using ExecTimer by simp
next
  case (PauseTask T)
  have "queue_ok (pauseTask T s)"
  proof (cases "status_of s T = Some running")
    case False
    then show ?thesis using q by (simp add: pauseTask_noop)
  next
    case True
    with q have n: "T \<notin> set (taskQueue s)"
      by (auto simp: queue_ok_def)
    show ?thesis
    proof (rule queue_ok_step [OF q])
      show "distinct (taskQueue (pauseTask T s))"
        using q by (simp add: queue_ok_def)
      fix k
      assume "k \<in> set (taskQueue (pauseTask T s))"
      then have "k \<in> set (taskQueue s)" "k \<noteq> T"
        using n by auto
      then show "(k \<in> set (taskQueue s) \<and> status_of (pauseTask T s) k = status_of s k) \<or>
           status_of (pauseTask T s) k \<notin> {Some running, Some paused, Some failed}"
        by (simp add: status_of_pauseTask_any [OF ok])
    qed
  qed
  then show ?thesis using PauseTask by simp
next
  case (ResumeTask T)
  have "queue_ok (resumeTask T s)"
  proof (cases "status_of s T = Some paused")
    case False
    then show ?thesis using q by (simp add: resumeTask_noop)
  next
    case True
    with q have n: "T \<notin> set (taskQueue s)"
      by (auto simp: queue_ok_def)
    note eff = resumeTask_effect [OF ok True]
    show ?thesis
    proof (rule queue_ok_step [OF q])
      show "distinct (taskQueue (resumeTask T s))"
        using q n by (simp add: eff(3) queue_ok_def)
      fix k
      assume "k \<in> set (taskQueue (resumeTask T s))"
      then have "k = T \<or> (k \<in> set (taskQueue s) \<and> k \<noteq> T)"
        using n by (auto simp: eff(2))
      then show "(k \<in> set (taskQueue s) \<and> status_of (resumeTask T s) k = status_of s k) \<or>
           status_of (resumeTask T s) k \<notin> {Some running, Some paused, Some failed}"
        by (auto simp: eff(1))
    qed
  qed
  then show ?thesis using ResumeTask by simp
next
  case (CancelTask T)
  have "queue_ok (cancelTask T s)"
  proof (cases "status_of s T = None")
    case True
    then show ?thesis using q by (simp add: cancelTask_absent)
  next
    case False
    have tq: "taskQueue (cancelTask T s) = remove1 T (taskQueue s)"
      using False by (rule taskQueue_cancelTask)
    from q have d: "distinct (taskQueue s)"
      by (simp add: queue_ok_def)
    show ?thesis
    proof (rule queue_ok_step [OF q])
      show "distinct (taskQueue (cancelTask T s))"
        using d by (simp add: tq)
      fix k
      assume "k \<in> set (taskQueue (cancelTask T s))"
      then have "k \<in> set (taskQueue s)" "k \<noteq> T"
        using d by (auto simp: tq)
      then show "(k \<in> set (taskQueue s) \<and> status_of (cancelTask T s) k = status_of s k) \<or>
           status_of (cancelTask T s) k \<notin> {Some running, Some paused, Some failed}"
        by (simp add: status_of_cancelTask [OF ok])
    qed
  qed
  then show ?thesis using CancelTask by simp
next
  case ClearCompleted
  have "queue_ok (clearCompleted s)"
  proof (rule queue_ok_step [OF q])
    show "distinct (taskQueue (clearCompleted s))"
      using q by (simp add: queue_ok_def)
    fix k
    assume "k \<in> set (taskQueue (clearCompleted s))"
    then show "(k \<in> set (taskQueue s) \<and> status_of (clearCompleted s) k = status_of s k) \<or>
           status_of (clearCompleted s) k \<notin> {Some running, Some paused, Some failed}"
      using status_of_clearCompleted [OF ok, of k] by auto
  qed
  then show ?thesis using ClearCompleted by simp
qed

lemma in_set_remove1D: "x \<in> set (remove1 y xs) \<Longrightarrow> x \<in> set xs"
  by (metis notin_set_remove1)

lemma cancelled_out_exec:
  assumes ok: "table_ok s" and c: "cancelled_out T s" and other: "created_id e \<noteq> Some T"
  shows "cancelled_out T (exec e s)"
proof (cases e)
  case (CreateTask nm descr ex options idTime rnd now)
  let ?k = "generateTaskId idTime rnd"
  let ?s' = "snd (createTask nm descr ex options idTime rnd now s)"
  have ne: "T \<noteq> ?k" using other CreateTask by simp
  from createTask_effect(1) [OF ok, of nm descr ex options idTime rnd now]
  obtain i where t: "taskQueue ?s' = splice_in i ?k (taskQueue s)"
    by blast
  have "status_of ?s' T = status_of s T"
    using createTask_effect(2) [OF ok ne, of nm descr ex options now] by (simp add: status_of_def)
  then have "cancelled_out T ?s'"
    using ne by (intro cancelled_out_step [OF c, where A = "{?k}"]) (simp_all add: t)
  then show ?thesis using CreateTask by simp
next
  case (Start now)
  show ?thesis
  proof (cases "isRunning s")
    case True
    then show ?thesis using c Start by (simp add: start_def)
  next
    case False
    have "cancelled_out T (s\<lparr>isRunning := True\<rparr>)"
      using c by (simp add: cancelled_out_def)
    then have "cancelled_out T (processQueue_iteration now (s\<lparr>isRunning := True\<rparr>))"
      using ok by (intro cancelled_out_iteration) simp_all
    then show ?thesis
      using False Start by (simp add: start_def cancelled_out_def)
  qed
next
  case Stop
  then show ?thesis using c by (simp add: stop_def cancelled_out_def)
next
  case (LoopTimer now)
  then show ?thesis
    using c cancelled_out_iteration [OF ok c, of now]
    by (simp add: processQueue_resume_def cancelled_out_def)
next
  case (ExecTimer j now)
  have "cancelled_out T (executeTask_resume j now s)"
    using status_of_executeTask_resume [of j now s T]
    by (intro cancelled_out_step [OF c, where A = "{}"]) auto
  then show ?thesis using ExecTimer by simp
next
  case (PauseTask T')
  have "cancelled_out T (pauseTask T' s)"
    using c by (intro cancelled_out_step [OF c, where A = "{}"])
      (auto simp: status_of_pauseTask_any [OF ok] cancelled_out_def)
  then show ?thesis using PauseTask by simp
next
  case (ResumeTask T')
  have "cancelled_out T (resumeTask T' s)"
  proof (cases "status_of s T' = Some paused")
    case False
    then show ?thesis using c by (simp add: resumeTask_noop)
  next
    case True
    with c have ne: "T \<noteq> T'"
      by (auto simp: cancelled_out_def)
    note eff = resumeTask_effect [OF ok True]
    show ?thesis
      using ne by (intro cancelled_out_step [OF c, where A = "{T'}"]) (simp_all add: eff)
  qed
  then show ?thesis using ResumeTask by simp
next
  case (CancelTask T')
  have "cancelled_out T (cancelTask T' s)"
  proof (cases "status_of s T' = None")
    case True
    then show ?thesis using c by (simp add: cancelTask_absent)
  next
    case False
    have tq: "taskQueue (cancelTask T' s) = remove1 T' (taskQueue s)"
      using False by (rule taskQueue_cancelTask)
    show ?thesis
      by (intro cancelled_out_step [OF c, where A = "{}"])
        (auto simp: tq status_of_cancelTask [OF ok] dest: in_set_remove1D)
  qed
  then show ?thesis using CancelTask by simp
next
  case ClearCompleted
  have "cancelled_out T (clearCompleted s)"
    using status_of_clearCompleted [OF ok, of T] c
    by (intro cancelled_out_step [OF c, where A = "{}"]) (auto simp: cancelled_out_def)
  then show ?thesis using ClearCompleted by simp
qed

lemma created_ids_Cons:
  "created_ids (e # es) = (case created_id e of None \<Rightarrow> created_ids es | Some k \<Rightarrow> k # created_ids es)"
  by (simp add: created_ids_def split: option.splits)

lemma created_ids_Nil [simp]: "created_ids [] = []"
  by (simp add: created_ids_def)

lemma keys_clearCompleted: "fst ` set (tasks (clearCompleted s)) \<subseteq> fst ` set (tasks s)"
  by (auto simp: clearCompleted_def fold_delete_filter)

lemma known_ids_iteration:
  assumes "table_ok s"
  shows "known_ids (processQueue_iteration now s) \<subseteq> known_ids s"
  using assms
proof (cases rule: iteration_cases [where now = now])
  case idle
  then show ?thesis by simp
next
  case (dropped T rest)
  then show ?thesis by (auto simp: known_ids_def)
next
  case (deferred T rest)
  then show ?thesis by (auto simp: known_ids_def)
next
  case (started T rest)
  then show ?thesis by (auto simp: known_ids_def)
qed

lemma known_ids_exec:
  assumes ok: "table_ok s"
  shows "known_ids (exec e s) \<subseteq> known_ids s \<union> set_option (created_id e)"
proof (cases e)
  case (CreateTask nm descr ex options idTime rnd now)
  let ?k = "generateTaskId idTime rnd"
  let ?s' = "snd (createTask nm descr ex options idTime rnd now s)"
  from createTask_effect(1) [OF ok, of nm descr ex options idTime rnd now]
  obtain i where t: "taskQueue ?s' = splice_in i ?k (taskQueue s)"
    by blast
  have "fst ` set (tasks ?s') = insert ?k (fst ` set (tasks s))"
    by (rule createTask_effect(3) [OF ok])
  then show ?thesis
    using CreateTask t by (auto simp: known_ids_def)
next
  case (Start now)
  have "known_ids (processQueue_iteration now (s\<lparr>isRunning := True\<rparr>))
      \<subseteq> known_ids (s\<lparr>isRunning := True\<rparr>)"
    using ok by (intro known_ids_iteration) simp
  then show ?thesis
    using Start by (auto simp: start_def known_ids_def)
next
  case Stop
  then show ?thesis by (simp add: stop_def known_ids_def)
next
  case (LoopTimer now)
  then show ?thesis
    using known_ids_iteration [OF ok, of now] by (auto simp: processQueue_resume_def known_ids_def)
next
  case (ExecTimer j now)
  have "tasks (executeTask_resume j now s) = tasks s"
    by (auto simp: executeTask_resume_def split: prod.splits)
  then show ?thesis using ExecTimer by (simp add: known_ids_def)
next
  case (PauseTask T)
  have "tasks (pauseTask T s) = tasks s"
    by (auto simp: pauseTask_def split: option.splits)
  then show ?thesis using PauseTask by (simp add: known_ids_def)
next
  case (ResumeTask T)
  have tk: "tasks (resumeTask T s) = tasks s"
    by (auto simp: resumeTask_def split: option.splits)
  show ?thesis
  proof (cases "status_of s T = Some paused")
    case False
    then show ?thesis using ResumeTask by (simp add: resumeTask_noop)
  next
    case True
    then obtain r where "map_of (tasks s) T = Some r"
      by (auto simp: status_of_def tasks_get_def split: option.splits)
    then have "T \<in> fst ` set (tasks s)"
      by (metis map_of_SomeD fst_conv image_eqI)
    then show ?thesis
      using ResumeTask tk resumeTask_effect(2) [OF ok True] by (auto simp: known_ids_def)
  qed
next
  case (CancelTask T)
  have tk: "tasks (cancelTask T s) = tasks s"
    by (auto simp: cancelTask_def split: option.splits)
  have "set (taskQueue (cancelTask T s)) \<subseteq> set (taskQueue s)"
    by (cases "status_of s T = None")
      (auto simp: cancelTask_absent taskQueue_cancelTask dest: in_set_remove1D)
  then show ?thesis using CancelTask tk by (auto simp: known_ids_def)
next
  case ClearCompleted
  then show ?thesis
    using keys_clearCompleted [of s] by (auto simp: known_ids_def)
qed

lemma queue_ok_run:
  assumes "table_ok s" and "queue_ok s" and "known_ids s \<subseteq> U"
    and "distinct (created_ids es)" and "set (created_ids es) \<inter> U = {}"
  shows "queue_ok (run es s)"
  using assms
proof (induction es arbitrary: s U)
  case Nil
  then show ?case by simp
next
  case (Cons e es)
  have fresh: "k \<notin> set (taskQueue s)" if "created_id e = Some k" for k
    using that Cons.prems(3,5) by (auto simp: created_ids_Cons known_ids_def)
  have q: "queue_ok (exec e s)"
    using Cons.prems(1,2) fresh by (rule queue_ok_exec)
  have ok: "table_ok (exec e s)"
    using Cons.prems(1) by (rule table_ok_exec)
  have k: "known_ids (exec e s) \<subseteq> U \<union> set_option (created_id e)"
    using known_ids_exec [OF Cons.prems(1), of e] Cons.prems(3) by auto
  have d: "distinct (created_ids es)"
    using Cons.prems(4) by (simp add: created_ids_Cons split: option.splits)
  have i: "set (created_ids es) \<inter> (U \<union> set_option (created_id e)) = {}"
    using Cons.prems(4,5) by (auto simp: created_ids_Cons split: option.splits)
  show ?case
    using Cons.IH [OF ok q k d i] by simp
qed

lemma queue_ok_reachable:
  assumes "distinct (created_ids es)"
  shows "queue_ok (run es (constructor cfg))"
proof (rule queue_ok_run [where U = "{}"])
  show "table_ok (constructor cfg)" by (rule table_ok_constructor)
  show "queue_ok (constructor cfg)" by (simp add: queue_ok_def constructor_def)
  show "known_ids (constructor cfg) \<subseteq> {}" by (simp add: known_ids_def constructor_def)
  show "distinct (created_ids es)" by (rule assms)
  show "set (created_ids es) \<inter> {} = {}" by simp
qed

lemma cancelled_out_run:
  assumes "table_ok s" and "cancelled_out T s" and "T \<notin> set (created_ids es)"
  shows "cancelled_out T (run es s)"
  using assms
proof (induction es arbitrary: s)
  case Nil
  then show ?case by simp
next
  case (Cons e es)
  have n: "created_id e \<noteq> Some T" "T \<notin> set (created_ids es)"
    using Cons.prems(3) by (auto simp: created_ids_Cons split: option.splits)
  have c: "cancelled_out T (exec e s)"
    using Cons.prems(1,2) n(1) by (rule cancelled_out_exec)
  have ok: "table_ok (exec e s)"
    using Cons.prems(1) by (rule table_ok_exec)
  show ?case
    using Cons.IH [OF ok c n(2)] by simp
qed

text \<open>
  Claim C6, as amended. In a run that gives distinct ids to its jobs, \<open>cancelTask\<close> is
  effective for every job in the table, whatever its status: the job becomes \<open>failed\<close>
  with the error "Cancelled by user", its id leaves the queue, the status of the other
  jobs is kept, and from then on, as long as no new job is given the same id, the id is
  never in the queue again and the job is never running.
\<close>

theorem cancelTask_effective_for_every_job:
  assumes "s = run es (constructor cfg)" and "distinct (created_ids es)"
    and "tasks_get s taskId = Some task"
    and "taskId \<notin> set (created_ids later)"
  shows "tasks_get (cancelTask taskId s) taskId
           = Some (task\<lparr>status := failed, error := Some ''Cancelled by user''\<rparr>) \<and>
         taskQueue (cancelTask taskId s) = remove1 taskId (taskQueue s) \<and>
         taskId \<notin> set (taskQueue (cancelTask taskId s)) \<and>
         (\<forall>k. k \<noteq> taskId \<longrightarrow> status_of (cancelTask taskId s) k = status_of s k) \<and>
         taskId \<notin> set (taskQueue (run later (cancelTask taskId s))) \<and>
         status_of (run later (cancelTask taskId s)) taskId \<noteq> Some running"
proof -
  have ok: "table_ok s"
    unfolding assms(1) by (rule table_ok_run [OF table_ok_constructor])
  have q: "queue_ok s"
    unfolding assms(1) using assms(2) by (rule queue_ok_reachable)
  have present: "status_of s taskId \<noteq> None"
    using assms(3) by (simp add: status_of_def)
  have a: "tasks_get (cancelTask taskId s) taskId
      = Some (task\<lparr>status := failed, error := Some ''Cancelled by user''\<rparr>)"
    using assms(3) by (auto simp: cancelTask_def tasks_get_def split: option.splits)
  have b: "taskQueue (cancelTask taskId s) = remove1 taskId (taskQueue s)"
    using present by (rule taskQueue_cancelTask)
  have c: "taskId \<notin> set (taskQueue (cancelTask taskId s))"
    using q by (simp add: b queue_ok_def)
  have d: "status_of (cancelTask taskId s) k = status_of s k" if "k \<noteq> taskId" for k
    using that by (simp add: status_of_cancelTask [OF ok])
  have "cancelled_out taskId (cancelTask taskId s)"
    using c present by (simp add: cancelled_out_def status_of_cancelTask [OF ok])
  moreover have "table_ok (cancelTask taskId s)"
    using table_ok_exec [OF ok, of "CancelTask taskId"] by simp
  ultimately have "cancelled_out taskId (run later (cancelTask taskId s))"
    using assms(4) by (intro cancelled_out_run)
  then have e: "taskId \<notin> set (taskQueue (run later (cancelTask taskId s)))"
    "status_of (run later (cancelTask taskId s)) taskId \<noteq> Some running"
    by (simp_all add: cancelled_out_def)
  show ?thesis
    using a b c d e by blast
qed

theorem cancelTask_effective_for_every_job_witness:
  "status_of sample_queued ''task_5_x'' = Some queued \<and>
   taskQueue sample_queued = [''task_5_x''] \<and>
   status_of (cancelTask ''task_5_x'' sample_queued) ''task_5_x'' = Some failed \<and>
   taskQueue (cancelTask ''task_5_x'' sample_queued) = [] \<and>
   ''task_5_x'' \<notin> set (taskQueue (run [Start 6, LoopTimer 7] (cancelTask ''task_5_x'' sample_queued))) \<and>
   status_of (run [Start 6, LoopTimer 7] (cancelTask ''task_5_x'' sample_queued)) ''task_5_x''
     \<noteq> Some running"
proof -
  have r: "sample_queued = run [sample_create] (constructor None)"
    by (simp only: sample_queued_def)
  have ids: "created_ids [sample_create] = [''task_5_x'']"
    by code_simp
  have d: "distinct (created_ids [sample_create])"
    by (simp add: ids)
  have l: "''task_5_x'' \<notin> set (created_ids [Start 6, LoopTimer 7])"
    by (simp add: created_ids_Cons)
  have a: "status_of sample_queued ''task_5_x'' = Some queued"
    by code_simp
  have q: "taskQueue sample_queued = [''task_5_x'']"
    by code_simp
  from a obtain task where t: "tasks_get sample_queued ''task_5_x'' = Some task"
    by (auto simp: status_of_def)
  note th = cancelTask_effective_for_every_job [OF r d t l]
  have "tasks_get (cancelTask ''task_5_x'' sample_queued) ''task_5_x''
      = Some (task\<lparr>status := failed, error := Some ''Cancelled by user''\<rparr>)"
    using th by (elim conjE)
  then have b: "status_of (cancelTask ''task_5_x'' sample_queued) ''task_5_x'' = Some failed"
    by (simp add: status_of_def)
  have "taskQueue (cancelTask ''task_5_x'' sample_queued) = remove1 ''task_5_x'' (taskQueue sample_queued)"
    using th by (elim conjE)
  then have c: "taskQueue (cancelTask ''task_5_x'' sample_queued) = []"
    by (simp add: q)
  have e: "''task_5_x'' \<notin> set (taskQueue (run [Start 6, LoopTimer 7] (cancelTask ''task_5_x'' sample_queued)))"
    using th by (elim conjE)
  have f: "status_of (run [Start 6, LoopTimer 7] (cancelTask ''task_5_x'' sample_queued)) ''task_5_x''
     \<noteq> Some running"
    using th by (elim conjE)
  show ?thesis
    by (intro conjI a q b c e f)
qed

text \<open>
  Claim C6 as stated fails: \<open>cancelTask\<close> does not leave a terminal job unchanged. The
  completed job of the sample becomes failed and gets the error "Cancelled by user".
\<close>

theorem cancelTask_changes_completed_job:
  "status_of sample_mixed ''task_1_a'' = Some completed \<and>
   map_option error (tasks_get sample_mixed ''task_1_a'') = Some None \<and>
   status_of (cancelTask ''task_1_a'' sample_mixed) ''task_1_a'' = Some failed \<and>
   map_option error (tasks_get (cancelTask ''task_1_a'' sample_mixed) ''task_1_a'')
     = Some (Some ''Cancelled by user'')"
  by code_simp

subsection \<open>Priority order of the queue\<close>

lemma insertIndex_takeWhile:
  "insertIndex (tasks_get s) p q = length (takeWhile (\<lambda>y. \<not> lower_priority s p y) q)"
  by (induction q) (auto simp: lower_priority_def split: option.splits)

lemma queueTask_position:
  assumes "tasks_get s taskId = Some task"
  shows "taskQueue (queueTask taskId s)
           = takeWhile (\<lambda>q. \<not> lower_priority s (priorityOrder (priority task)) q) (taskQueue s)
             @ taskId # dropWhile (\<lambda>q. \<not> lower_priority s (priorityOrder (priority task)) q)
                 (taskQueue s)"
  using assms
  by (simp add: queueTask_def splice_in_def insertIndex_takeWhile takeWhile_eq_take [symmetric]
      dropWhile_eq_drop [symmetric])

lemma sorted_dropWhile_above:
  "sorted (map f xs) \<Longrightarrow> y \<in> set (dropWhile (\<lambda>y. f y \<le> c) xs) \<Longrightarrow> c < f y"
proof (induction xs)
  case Nil
  then show ?case by simp
next
  case (Cons a xs)
  show ?case
  proof (cases "f a \<le> c")
    case True
    then show ?thesis using Cons by simp
  next
    case False
    with Cons.prems show ?thesis by (auto simp: not_le)
  qed
qed

lemma sort_key_snoc:
  fixes f :: "'a \<Rightarrow> nat"
  shows "sort_key f (xs @ [x])
     = takeWhile (\<lambda>y. f y \<le> f x) (sort_key f xs) @ x # dropWhile (\<lambda>y. f y \<le> f x) (sort_key f xs)"
    (is "_ = ?R")
proof (rule properties_for_sort_key)
  let ?S = "sort_key f xs"
  let ?P = "\<lambda>y. f y \<le> f x"
  have split: "takeWhile ?P ?S @ dropWhile ?P ?S = ?S"
    by simp
  have "mset ?R = mset (takeWhile ?P ?S @ dropWhile ?P ?S) + {#x#}"
    by (simp del: takeWhile_dropWhile_id)
  then show "mset ?R = mset (xs @ [x])"
    by (simp only: split) simp
  have above: "f x < f y" if "y \<in> set (dropWhile ?P ?S)" for y
    using sorted_dropWhile_above [of f ?S y "f x"] that by simp
  have below: "f y \<le> f x" if "y \<in> set (takeWhile ?P ?S)" for y
    using that by (auto dest: set_takeWhileD)
  have s1: "sorted (map f (takeWhile ?P ?S))"
    using sorted_takeWhile [of "map f ?S" "\<lambda>v. v \<le> f x"] by (simp add: takeWhile_map comp_def)
  have s2: "sorted (map f (dropWhile ?P ?S))"
    using sorted_dropWhile [of "map f ?S" "\<lambda>v. v \<le> f x"] by (simp add: dropWhile_map comp_def)
  show "sorted (map f ?R)"
    using s1 s2 above below by (fastforce simp: sorted_append)
  show "filter (\<lambda>y. f k = f y) ?R = filter (\<lambda>y. f k = f y) (xs @ [x])" if "k \<in> set ?R" for k
  proof -
    have st: "filter (\<lambda>y. f k = f y) ?S = filter (\<lambda>y. f k = f y) xs"
      using sort_key_stable [of f "f k" xs] by (simp add: eq_commute)
    have fs: "filter (\<lambda>y. f k = f y) (takeWhile ?P ?S) @ filter (\<lambda>y. f k = f y) (dropWhile ?P ?S)
        = filter (\<lambda>y. f k = f y) ?S"
      by (simp only: filter_append [symmetric] split)
    show ?thesis
    proof (cases "f k = f x")
      case True
      have "filter (\<lambda>y. f k = f y) (dropWhile ?P ?S) = []"
        unfolding filter_empty_conv
      proof (intro ballI)
        fix y
        assume "y \<in> set (dropWhile ?P ?S)"
        from above [OF this] True show "f k \<noteq> f y" by simp
      qed
      then show ?thesis
        using fs st True by simp
    next
      case False
      then show ?thesis
        using fs st by simp
    qed
  qed
qed

lemma takeWhile_map_filter:
  assumes "\<And>x. x \<in> set xs \<Longrightarrow> \<exists>k. g x = Some k \<and> P k = Q x"
  shows "takeWhile P (List.map_filter g xs) = List.map_filter g (takeWhile Q xs)"
    and "dropWhile P (List.map_filter g xs) = List.map_filter g (dropWhile Q xs)"
  using assms
proof (induction xs)
  case Nil
  {
    case 1 show ?case by (simp add: map_filter_simps)
  next
    case 2 show ?case by (simp add: map_filter_simps)
  }
next
  case (Cons a xs)
  {
    case 1
    from 1 [of a] obtain k where k: "g a = Some k" "P k = Q a" by auto
    have "takeWhile P (List.map_filter g xs) = List.map_filter g (takeWhile Q xs)"
      using 1 by (intro Cons.IH(1)) auto
    then show ?case using k by (simp add: map_filter_simps)
  next
    case 2
    from 2 [of a] obtain k where k: "g a = Some k" "P k = Q a" by auto
    have "dropWhile P (List.map_filter g xs) = List.map_filter g (dropWhile Q xs)"
      using 2 by (intro Cons.IH(2)) auto
    then show ?case using k by (simp add: map_filter_simps)
  }
qed

lemma map_filter_append:
  "List.map_filter g (xs @ ys) = List.map_filter g xs @ List.map_filter g ys"
  by (simp add: map_filter_def)

lemma created_ids_snoc:
  "created_ids (es @ [e]) = created_ids es @ (case created_id e of None \<Rightarrow> [] | Some k \<Rightarrow> [k])"
  by (simp add: created_ids_def map_filter_append map_filter_simps split: option.splits)

lemma submissions_queue:
  assumes "\<forall>e \<in> set es. created_id e \<noteq> None" and "distinct (created_ids es)"
  shows "taskQueue (run es (constructor cfg)) = created_ids (sort_key submitted_rank es) \<and>
         submitted es (run es (constructor cfg))"
  using assms
proof (induction es rule: rev_induct)
  case Nil
  show ?case by (simp add: constructor_def submitted_def)
next
  case (snoc e es)
  let ?S = "run es (constructor cfg)"
  let ?S' = "run (es @ [e]) (constructor cfg)"
  from snoc.prems(1) obtain nm descr ex options idTime rnd now
    where e: "e = CreateTask nm descr ex options idTime rnd now"
    by (cases e) auto
  let ?k = "generateTaskId idTime rnd"
  have ids: "created_ids (es @ [e]) = created_ids es @ [?k]"
    by (simp add: created_ids_snoc e)
  with snoc.prems(2) have d: "distinct (created_ids es)" and new: "?k \<notin> set (created_ids es)"
    by simp_all
  from snoc.prems(1) have "\<forall>e \<in> set es. created_id e \<noteq> None"
    by simp
  from snoc.IH [OF this d]
  have q: "taskQueue ?S = created_ids (sort_key submitted_rank es)" and sub: "submitted es ?S"
    by simp_all
  have ok: "table_ok ?S"
    by (rule table_ok_run [OF table_ok_constructor])
  have S': "?S' = snd (createTask nm descr ex options idTime rnd now ?S)"
    by (simp add: run_append e)
  from createTask_effect(1) [OF ok, of nm descr ex options idTime rnd now]
  obtain t where t: "tasks_get ?S' ?k = Some t"
    "priorityOrder (priority t) = submitted_rank e"
    "dependencies t = submitted_dependencies e"
    "taskQueue ?S' = splice_in (insertIndex (tasks_get ?S') (submitted_rank e) (taskQueue ?S))
        ?k (taskQueue ?S)"
    unfolding S' [symmetric] by (auto simp: e)
  have old: "tasks_get ?S' k = tasks_get ?S k" if "k \<noteq> ?k" for k
    unfolding S' by (rule createTask_effect(2) [OF ok that])
  have other: "k \<noteq> ?k" if "x \<in> set es" "created_id x = Some k" for x k
  proof -
    from that have "k \<in> set (created_ids es)"
      by (force simp: created_ids_def set_map_filter)
    with new show ?thesis by auto
  qed
  have sub': "submitted (es @ [e]) ?S'"
    unfolding submitted_def
  proof (intro ballI allI impI)
    fix x k
    assume x: "x \<in> set (es @ [e])" and k: "created_id x = Some k"
    show "\<exists>t. tasks_get ?S' k = Some t \<and> priorityOrder (priority t) = submitted_rank x \<and>
        dependencies t = submitted_dependencies x"
    proof (cases "x \<in> set es")
      case True
      with sub k obtain t' where "tasks_get ?S k = Some t'"
        "priorityOrder (priority t') = submitted_rank x" "dependencies t' = submitted_dependencies x"
        unfolding submitted_def by blast
      then show ?thesis using old [OF other [OF True k]] by simp
    next
      case False
      with x have "x = e" by simp
      with k have "k = ?k" by (simp add: e)
      then show ?thesis using t \<open>x = e\<close> by simp
    qed
  qed
  let ?xs = "sort_key submitted_rank es"
  let ?Q = "\<lambda>x. submitted_rank x \<le> submitted_rank e"
  let ?P = "\<lambda>y. \<not> lower_priority ?S' (submitted_rank e) y"
  have corr: "\<exists>k. created_id x = Some k \<and> ?P k = ?Q x" if "x \<in> set ?xs" for x
  proof -
    from that have xin: "x \<in> set es" by simp
    with snoc.prems(1) obtain k where k: "created_id x = Some k" by auto
    from sub xin k obtain t' where "tasks_get ?S k = Some t'"
      "priorityOrder (priority t') = submitted_rank x"
      unfolding submitted_def by blast
    then have "?P k = ?Q x"
      using old [OF other [OF xin k]] by (auto simp: lower_priority_def)
    with k show ?thesis by simp
  qed
  have "taskQueue ?S' = takeWhile ?P (taskQueue ?S) @ ?k # dropWhile ?P (taskQueue ?S)"
    unfolding t(4)
    by (simp add: splice_in_def insertIndex_takeWhile takeWhile_eq_take [symmetric]
        dropWhile_eq_drop [symmetric])
  also have "\<dots> = created_ids (takeWhile ?Q ?xs) @ ?k # created_ids (dropWhile ?Q ?xs)"
    unfolding q created_ids_def
    using takeWhile_map_filter [of ?xs created_id ?P ?Q, OF corr] by simp
  also have "\<dots> = created_ids (takeWhile ?Q ?xs @ e # dropWhile ?Q ?xs)"
    by (simp add: created_ids_def map_filter_append map_filter_simps e)
  also have "\<dots> = created_ids (sort_key submitted_rank (es @ [e]))"
    by (simp only: sort_key_snoc)
  finally show ?case using sub' by simp
qed

lemma generateTaskId_nonempty: "generateTaskId idTime rnd \<noteq> []"
  by (simp add: generateTaskId_def)

lemma tasks_get_same_fields:
  assumes "same_objects s s'" and "tasks s' = tasks s" and "tasks_get s k = Some t"
  shows "\<exists>t'. tasks_get s' k = Some t' \<and> same_fields t t'"
proof -
  from assms(3) obtain r where r: "map_of (tasks s) k = Some r" "heap s r = Some t"
    by (auto simp: tasks_get_def split: option.splits)
  from assms(1) have "rel_option same_fields (heap s r) (heap s' r)"
    by (simp add: same_objects_def)
  with r(2) obtain t' where "heap s' r = Some t'" "same_fields t t'"
    by (cases "heap s' r") auto
  then show ?thesis using r(1) assms(2) by (simp add: tasks_get_def)
qed

lemma tasks_get_taskQueue_upd [simp]: "tasks_get (s\<lparr>taskQueue := q\<rparr>) = tasks_get s"
  by (simp add: tasks_get_def fun_eq_iff cong: option.case_cong)

lemma tasks_get_isRunning_upd [simp]: "tasks_get (s\<lparr>isRunning := b\<rparr>) = tasks_get s"
  by (simp add: tasks_get_def fun_eq_iff cong: option.case_cong)

lemma executeTask_ready:
  assumes ok: "table_ok s" and t: "tasks_get s T = Some t" and d: "dependencies t = []"
  shows "taskQueue (executeTask T now s) = taskQueue s \<and>
         status_of (executeTask T now s) T = Some running"
proof -
  from t obtain r where r: "map_of (tasks s) T = Some r" "heap s r = Some t"
    by (auto simp: tasks_get_def split: option.splits)
  let ?t = "t\<lparr>status := running, startedAt := Some now, progress := 0\<rparr>"
  have e: "executeTask T now s = s\<lparr>runningTasks := set_add T (runningTasks s),
      heap := (heap s)(r \<mapsto> ?t), executions := executions s @ [(r, T, 0)]\<rparr>"
    using r d by (simp add: executeTask_def)
  have "status_of (executeTask T now s) T = (if T = T then Some (status ?t) else status_of s T)"
    by (rule status_of_heap_upd [OF ok r(1)]) (simp_all add: e)
  then show ?thesis by (simp add: e)
qed

lemma iteration_ready:
  assumes ok: "table_ok s" and rd: "ready s"
  shows "processQueue_iteration now s = s \<or>
         (\<exists>T rest. taskQueue s = T # rest \<and> taskQueue (processQueue_iteration now s) = rest \<and>
            status_of (processQueue_iteration now s) T = Some running)"
proof (cases "int (length (runningTasks s)) < maxConcurrent (config s) \<and> length (taskQueue s) > 0")
  case False
  then have "processQueue_iteration now s = s"
    by (auto simp: processQueue_iteration_def)
  then show ?thesis by simp
next
  case True
  then obtain T rest where q: "taskQueue s = T # rest"
    by (cases "taskQueue s") auto
  with rd obtain t where t: "T \<noteq> []" "tasks_get s T = Some t" "dependencies t = []"
    by (auto simp: ready_def)
  let ?s1 = "s\<lparr>taskQueue := rest\<rparr>"
  have e: "processQueue_iteration now s = executeTask T now ?s1"
    using True q t(1) by (simp add: processQueue_iteration_def)
  have t1: "tasks_get ?s1 T = Some t"
    using t(2) by simp
  have ok1: "table_ok ?s1"
    using ok by simp
  from executeTask_ready [OF ok1 t1 t(3), of now] show ?thesis
    using q by (simp add: e)
qed

lemma loop_step:
  assumes ok: "table_ok s" and rd: "ready s" and le: "loop_event e"
  shows "taskQueue (exec e s) = taskQueue s \<or>
         (\<exists>T rest. taskQueue s = T # rest \<and> taskQueue (exec e s) = rest \<and>
            status_of (exec e s) T = Some running)"
proof (cases e)
  case (Start now)
  show ?thesis
  proof (cases "isRunning s")
    case True
    then show ?thesis using Start by (simp add: start_def)
  next
    case False
    have "ready (s\<lparr>isRunning := True\<rparr>)"
      using rd by (simp add: ready_def)
    from iteration_ready [OF _ this, of now] ok show ?thesis
      using False Start by (auto simp: start_def)
  qed
next
  case Stop
  then show ?thesis by (simp add: stop_def)
next
  case (LoopTimer now)
  then show ?thesis
    using iteration_ready [OF ok rd, of now] by (auto simp: processQueue_resume_def)
next
  case (ExecTimer k now)
  then show ?thesis by simp
qed (use le in simp_all)

lemma ready_exec:
  assumes ok: "table_ok s" and rd: "ready s" and le: "loop_event e"
  shows "ready (exec e s)"
proof -
  have so: "same_objects s (exec e s)"
    using le by (intro same_objects_exec) auto
  have tk: "tasks (exec e s) = tasks s"
    using le tasks_exec [of e s] by (cases e) auto
  have sub: "set (taskQueue (exec e s)) \<subseteq> set (taskQueue s)"
    using loop_step [OF ok rd le] by auto
  show ?thesis
    unfolding ready_def
  proof (intro ballI)
    fix k
    assume "k \<in> set (taskQueue (exec e s))"
    with sub rd obtain t where t: "k \<noteq> []" "tasks_get s k = Some t" "dependencies t = []"
      unfolding ready_def by blast
    from tasks_get_same_fields [OF so tk t(2)] t(1,3)
    show "k \<noteq> [] \<and> (\<exists>t. tasks_get (exec e s) k = Some t \<and> dependencies t = [])"
      by (auto simp: same_fields_def)
  qed
qed

lemma loop_run:
  assumes "table_ok s" and "ready s" and "\<forall>e \<in> set later. loop_event e"
  shows "table_ok (run later s) \<and> ready (run later s) \<and>
         (\<exists>n. taskQueue (run later s) = drop n (taskQueue s))"
  using assms
proof (induction later arbitrary: s)
  case Nil
  have "\<exists>n. taskQueue s = drop n (taskQueue s)"
    by (rule exI [of _ 0]) simp
  then show ?case using Nil by simp
next
  case (Cons e later)
  have le: "loop_event e" and rest: "\<forall>e \<in> set later. loop_event e"
    using Cons.prems(3) by simp_all
  have ok: "table_ok (exec e s)"
    using Cons.prems(1) by (rule table_ok_exec)
  have rd: "ready (exec e s)"
    using Cons.prems(1,2) le by (rule ready_exec)
  from Cons.IH [OF ok rd rest] obtain n
    where ih: "table_ok (run later (exec e s))" "ready (run later (exec e s))"
      "taskQueue (run later (exec e s)) = drop n (taskQueue (exec e s))"
    by blast
  from loop_step [OF Cons.prems(1,2) le]
  have "taskQueue (exec e s) = drop 0 (taskQueue s) \<or> taskQueue (exec e s) = drop 1 (taskQueue s)"
    by (auto simp: drop_Suc)
  then have "\<exists>m. taskQueue (run later (exec e s)) = drop m (taskQueue s)"
    unfolding ih(3) by (metis drop_drop)
  then show ?case using ih(1,2) by simp
qed

lemma ready_after_submissions:
  assumes "\<forall>e \<in> set es. created_id e \<noteq> None" and "distinct (created_ids es)"
    and "\<forall>e \<in> set es. submitted_dependencies e = []"
  shows "ready (run es (constructor cfg))"
  unfolding ready_def
proof (intro ballI)
  let ?S = "run es (constructor cfg)"
  fix k
  assume "k \<in> set (taskQueue ?S)"
  with submissions_queue [OF assms(1,2), of cfg]
  have "k \<in> set (created_ids (sort_key submitted_rank es))" and sub: "submitted es ?S"
    by simp_all
  then obtain e where e: "e \<in> set es" "created_id e = Some k"
    by (auto simp: created_ids_def set_map_filter)
  from sub e obtain t where "tasks_get ?S k = Some t" "dependencies t = submitted_dependencies e"
    unfolding submitted_def by blast
  moreover have "k \<noteq> []"
    using e(2) by (cases e) (auto simp: generateTaskId_nonempty)
  ultimately show "k \<noteq> [] \<and> (\<exists>t. tasks_get ?S k = Some t \<and> dependencies t = [])"
    using assms(3) e(1) by auto
qed

lemma iteration_closed: "\<not> gate_open s \<Longrightarrow> processQueue_iteration now s = s"
  by (auto simp: gate_open_def processQueue_iteration_def)

lemma executeTask_ready_running:
  assumes "tasks_get s T = Some t" and "dependencies t = []"
  shows "T \<in> set (runningTasks (executeTask T now s))"
  using assms
  by (auto simp: executeTask_def tasks_get_def set_add_def split: option.splits)

lemma iteration_ready_pop:
  assumes ok: "table_ok s" and rd: "ready s" and go: "gate_open s"
  shows "\<exists>T rest. taskQueue s = T # rest \<and> taskQueue (processQueue_iteration now s) = rest \<and>
           status_of (processQueue_iteration now s) T = Some running \<and>
           T \<in> set (runningTasks (processQueue_iteration now s))"
proof -
  from go obtain T rest where q: "taskQueue s = T # rest"
    by (cases "taskQueue s") (auto simp: gate_open_def)
  with rd obtain t where t: "T \<noteq> []" "tasks_get s T = Some t" "dependencies t = []"
    by (auto simp: ready_def)
  let ?s1 = "s\<lparr>taskQueue := rest\<rparr>"
  have e: "processQueue_iteration now s = executeTask T now ?s1"
    using go q t(1) by (simp add: processQueue_iteration_def gate_open_def)
  have t1: "tasks_get ?s1 T = Some t"
    using t(2) by simp
  have ok1: "table_ok ?s1"
    using ok by simp
  from executeTask_ready [OF ok1 t1 t(3), of now] executeTask_ready_running [OF t1 t(3), of now]
  show ?thesis
    using q by (simp add: e)
qed

lemma loop_step_exact:
  assumes ok: "table_ok s" and rd: "ready s" and le: "loop_event e"
  shows "(dequeues e s \<longrightarrow>
           (\<exists>T rest. taskQueue s = T # rest \<and> taskQueue (exec e s) = rest \<and>
              status_of (exec e s) T = Some running \<and> T \<in> set (runningTasks (exec e s)))) \<and>
         (\<not> dequeues e s \<longrightarrow> taskQueue (exec e s) = taskQueue s)"
proof (cases e)
  case (Start now)
  show ?thesis
  proof (cases "isRunning s")
    case True
    then show ?thesis using Start by (simp add: start_def)
  next
    case False
    let ?s1 = "s\<lparr>isRunning := True\<rparr>"
    have rd1: "ready ?s1"
      using rd by (simp add: ready_def)
    have ok1: "table_ok ?s1"
      using ok by simp
    show ?thesis
    proof (cases "gate_open ?s1")
      case True
      from iteration_ready_pop [OF ok1 rd1 True, of now] show ?thesis
        using False Start True by (auto simp: start_def)
    next
      case closed: False
      then show ?thesis
        using False Start by (simp add: start_def iteration_closed)
    qed
  qed
next
  case Stop
  then show ?thesis by (simp add: stop_def)
next
  case (LoopTimer now)
  show ?thesis
  proof (cases "loops s \<noteq> 0 \<and> isRunning s")
    case False
    then show ?thesis using LoopTimer by (auto simp: processQueue_resume_def)
  next
    case True
    show ?thesis
    proof (cases "gate_open s")
      case go: True
      from iteration_ready_pop [OF ok rd go, of now] show ?thesis
        using True LoopTimer go by (auto simp: processQueue_resume_def)
    next
      case closed: False
      then show ?thesis
        using True LoopTimer by (simp add: processQueue_resume_def iteration_closed)
    qed
  qed
next
  case (ExecTimer k now)
  then show ?thesis by simp
qed (use le in simp_all)

text \<open>
  Claim C1, as amended. Each \<open>queueTask\<close> puts the id just before the first queued id
  whose job has a strictly larger priority rank, at the end when there is none. After any
  sequence of submissions with distinct ids to a new executor, the queue is the list of
  the submitted ids sorted by rank with the stable insertion sort \<open>sort_key\<close>: ranks do
  not decrease along the queue, and jobs of the same rank are in submission order. When
  no submitted job has dependencies, jobs are then dequeued in the order of the queue:
  \<open>start\<close> on a stopped executor and the timer of a live loop, with
  \<open>runningTasks.size < maxConcurrent\<close> and a queue that is not empty, remove the head of
  the queue and set that job running; every other event of the loop and of the
  executions leaves the queue as it is.
\<close>

theorem priority_queue_order:
  assumes "\<forall>e \<in> set es. created_id e \<noteq> None" and "distinct (created_ids es)"
  shows "taskQueue (run es (constructor cfg)) = created_ids (sort_key submitted_rank es) \<and>
         (tasks_get s taskId = Some task \<longrightarrow>
            taskQueue (queueTask taskId s)
              = takeWhile (\<lambda>q. \<not> lower_priority s (priorityOrder (priority task)) q) (taskQueue s)
                @ taskId # dropWhile (\<lambda>q. \<not> lower_priority s (priorityOrder (priority task)) q)
                    (taskQueue s)) \<and>
         ((\<forall>e \<in> set es. submitted_dependencies e = []) \<and> (\<forall>e \<in> set later. loop_event e) \<and>
          loop_event next_event \<longrightarrow>
            (\<exists>n. taskQueue (run later (run es (constructor cfg)))
                   = drop n (taskQueue (run es (constructor cfg)))) \<and>
            (dequeues next_event (run later (run es (constructor cfg))) \<longrightarrow>
               (\<exists>T rest. taskQueue (run later (run es (constructor cfg))) = T # rest \<and>
                  taskQueue (exec next_event (run later (run es (constructor cfg)))) = rest \<and>
                  status_of (exec next_event (run later (run es (constructor cfg)))) T
                    = Some running \<and>
                  T \<in> set (runningTasks
                             (exec next_event (run later (run es (constructor cfg))))))) \<and>
            (\<not> dequeues next_event (run later (run es (constructor cfg))) \<longrightarrow>
               taskQueue (exec next_event (run later (run es (constructor cfg))))
                 = taskQueue (run later (run es (constructor cfg)))))"
proof -
  let ?S = "run es (constructor cfg)"
  have a: "taskQueue ?S = created_ids (sort_key submitted_rank es)"
    using submissions_queue [OF assms, of cfg] by simp
  have c: "(\<exists>n. taskQueue (run later ?S) = drop n (taskQueue ?S)) \<and>
      (dequeues next_event (run later ?S) \<longrightarrow>
         (\<exists>T rest. taskQueue (run later ?S) = T # rest \<and>
            taskQueue (exec next_event (run later ?S)) = rest \<and>
            status_of (exec next_event (run later ?S)) T = Some running \<and>
            T \<in> set (runningTasks (exec next_event (run later ?S))))) \<and>
      (\<not> dequeues next_event (run later ?S) \<longrightarrow>
         taskQueue (exec next_event (run later ?S)) = taskQueue (run later ?S))"
    if nd: "\<forall>e \<in> set es. submitted_dependencies e = []"
      and l: "\<forall>e \<in> set later. loop_event e" and n: "loop_event next_event"
  proof -
    have ok: "table_ok ?S"
      by (rule table_ok_run [OF table_ok_constructor])
    have rd: "ready ?S"
      using assms nd by (rule ready_after_submissions)
    from loop_run [OF ok rd l]
    have ok': "table_ok (run later ?S)" and rd': "ready (run later ?S)"
      and dr: "\<exists>n. taskQueue (run later ?S) = drop n (taskQueue ?S)"
      by simp_all
    from loop_step_exact [OF ok' rd' n] dr show ?thesis by simp
  qed
  show ?thesis
    using a c queueTask_position [of s taskId task] by blast
qed

theorem priority_queue_order_witness:
  "taskQueue (run sample_priorities (constructor None))
     = [''task_2_b'', ''task_3_c'', ''task_4_d'', ''task_1_a''] \<and>
   dequeues (Start 5) (run sample_priorities (constructor None)) \<and>
   taskQueue (exec (Start 5) (run sample_priorities (constructor None)))
     = [''task_3_c'', ''task_4_d'', ''task_1_a''] \<and>
   status_of (exec (Start 5) (run sample_priorities (constructor None))) ''task_2_b''
     = Some running \<and>
   ''task_2_b'' \<in> set (runningTasks (exec (Start 5) (run sample_priorities (constructor None)))) \<and>
   \<not> dequeues Stop (run sample_priorities (constructor None)) \<and>
   taskQueue (exec Stop (run sample_priorities (constructor None)))
     = [''task_2_b'', ''task_3_c'', ''task_4_d'', ''task_1_a''] \<and>
   taskQueue (queueTask ''task_5_x'' sample_queued) = [''task_5_x'', ''task_5_x'']"
proof -
  let ?S = "run sample_priorities (constructor None)"
  have h1: "\<forall>e \<in> set sample_priorities. created_id e \<noteq> None"
    by (simp add: sample_priorities_def)
  have ids: "created_ids sample_priorities = [''task_1_a'', ''task_2_b'', ''task_3_c'', ''task_4_d'']"
    by code_simp
  have h2: "distinct (created_ids sample_priorities)"
    by (simp add: ids)
  have h3: "(\<forall>e \<in> set sample_priorities. submitted_dependencies e = []) \<and>
      (\<forall>e \<in> set []. loop_event e) \<and> loop_event (Start 5)"
    by (simp add: sample_priorities_def)
  have h4: "(\<forall>e \<in> set sample_priorities. submitted_dependencies e = []) \<and>
      (\<forall>e \<in> set []. loop_event e) \<and> loop_event Stop"
    by (simp add: sample_priorities_def)
  have "status_of sample_queued ''task_5_x'' = Some queued"
    by code_simp
  then obtain task where t: "tasks_get sample_queued ''task_5_x'' = Some task"
    by (auto simp: status_of_def)
  note th = priority_queue_order [OF h1 h2, of None sample_queued "''task_5_x''" task "[]" "Start 5"]
  note th' = priority_queue_order [OF h1 h2, of None sample_queued "''task_5_x''" task "[]" Stop]
  have sorted_ids: "created_ids (sort_key submitted_rank sample_priorities)
      = [''task_2_b'', ''task_3_c'', ''task_4_d'', ''task_1_a'']"
    by code_simp
  have a: "taskQueue ?S = [''task_2_b'', ''task_3_c'', ''task_4_d'', ''task_1_a'']"
    using th [THEN conjunct1] by (simp only: sorted_ids)
  have pos: "taskQueue (queueTask ''task_5_x'' sample_queued)
      = takeWhile (\<lambda>q. \<not> lower_priority sample_queued (priorityOrder (priority task)) q)
          (taskQueue sample_queued)
        @ ''task_5_x'' # dropWhile (\<lambda>q. \<not> lower_priority sample_queued (priorityOrder (priority task)) q)
          (taskQueue sample_queued)"
    using th [THEN conjunct2, THEN conjunct1] t by (rule mp)
  have q: "taskQueue sample_queued = [''task_5_x'']"
    by code_simp
  have "\<not> lower_priority sample_queued (priorityOrder (priority task)) ''task_5_x''"
    using t by (simp add: lower_priority_def)
  then have d: "taskQueue (queueTask ''task_5_x'' sample_queued) = [''task_5_x'', ''task_5_x'']"
    unfolding pos q by simp
  have dq: "dequeues (Start 5) ?S"
    by code_simp
  have nq: "\<not> dequeues Stop ?S"
    by simp
  have "dequeues (Start 5) (run [] ?S) \<longrightarrow>
       (\<exists>T rest. taskQueue (run [] ?S) = T # rest \<and>
          taskQueue (exec (Start 5) (run [] ?S)) = rest \<and>
          status_of (exec (Start 5) (run [] ?S)) T = Some running \<and>
          T \<in> set (runningTasks (exec (Start 5) (run [] ?S))))"
    using mp [OF th [THEN conjunct2, THEN conjunct2] h3] by (elim conjE)
  then have "dequeues (Start 5) ?S \<longrightarrow>
       (\<exists>T rest. taskQueue ?S = T # rest \<and> taskQueue (exec (Start 5) ?S) = rest \<and>
          status_of (exec (Start 5) ?S) T = Some running \<and>
          T \<in> set (runningTasks (exec (Start 5) ?S)))"
    by (simp only: run.simps)
  with dq have "\<exists>T rest. taskQueue ?S = T # rest \<and> taskQueue (exec (Start 5) ?S) = rest \<and>
          status_of (exec (Start 5) ?S) T = Some running \<and>
          T \<in> set (runningTasks (exec (Start 5) ?S))"
    by (rule rev_mp)
  then have b: "taskQueue (exec (Start 5) ?S) = [''task_3_c'', ''task_4_d'', ''task_1_a'']"
    and c: "status_of (exec (Start 5) ?S) ''task_2_b'' = Some running"
    and m: "''task_2_b'' \<in> set (runningTasks (exec (Start 5) ?S))"
    unfolding a by auto
  have "\<not> dequeues Stop (run [] ?S) \<longrightarrow>
      taskQueue (exec Stop (run [] ?S)) = taskQueue (run [] ?S)"
    using mp [OF th' [THEN conjunct2, THEN conjunct2] h4] by (elim conjE)
  then have "\<not> dequeues Stop ?S \<longrightarrow> taskQueue (exec Stop ?S) = taskQueue ?S"
    by (simp only: run.simps)
  with nq have "taskQueue (exec Stop ?S) = taskQueue ?S"
    by (rule rev_mp)
  then have s: "taskQueue (exec Stop ?S) = [''task_2_b'', ''task_3_c'', ''task_4_d'', ''task_1_a'']"
    by (simp only: a)
  show ?thesis
    by (intro conjI a dq b c m nq s d)
qed

text \<open>
  Claim C1 as stated fails when jobs have dependencies. In the sample, the low job L and
  the critical job B are queued, neither has a pending dependency, and L is ahead of B:
  the loop runs L and leaves B queued. A medium job submitted at that point is put ahead
  of both, before the critical job.
\<close>

theorem ready_low_job_runs_before_ready_critical_job:
  "created_ids sample_dependency_events = [''task_1_a'', ''task_2_b'', ''task_3_l''] \<and>
   taskQueue sample_both_ready = [''task_3_l'', ''task_2_b''] \<and>
   runningTasks sample_both_ready = [] \<and>
   map_option priority (tasks_get sample_both_ready ''task_3_l'') = Some low \<and>
   map_option dependencies (tasks_get sample_both_ready ''task_3_l'') = Some [] \<and>
   map_option priority (tasks_get sample_both_ready ''task_2_b'') = Some critical \<and>
   map_option dependencies (tasks_get sample_both_ready ''task_2_b'') = Some [''task_1_a''] \<and>
   depCompleted sample_both_ready ''task_1_a'' \<and>
   status_of (exec (LoopTimer 7) sample_both_ready) ''task_3_l'' = Some running \<and>
   status_of (exec (LoopTimer 7) sample_both_ready) ''task_2_b'' = Some queued \<and>
   taskQueue (exec (LoopTimer 7) sample_both_ready) = [''task_2_b''] \<and>
   taskQueue (exec (CreateTask ''M'' ''medium'' failing_body None 8 ''m'' 8) sample_both_ready)
     = [''task_8_m'', ''task_3_l'', ''task_2_b'']"
  by code_simp

subsection \<open>Idempotence of pauseTask and resumeTask\<close>

lemma pauseTask_running:
  assumes "status_of s taskId = Some running"
  shows "\<exists>r task. map_of (tasks s) taskId = Some r \<and> heap s r = Some task \<and>
           pauseTask taskId s = s\<lparr>heap := (heap s)(r \<mapsto> task\<lparr>status := paused\<rparr>)\<rparr>"
  using assms
  by (auto simp: pauseTask_def status_of_def tasks_get_def split: option.splits)

lemma lower_priority_status_upd:
  assumes "heap s r = Some task"
  shows "lower_priority (s\<lparr>heap := (heap s)(r \<mapsto> task\<lparr>status := st\<rparr>)\<rparr>) p q
           = lower_priority s p q"
  using assms by (auto simp: lower_priority_def tasks_get_def split: option.splits)

lemma resumeTask_position:
  assumes "status_of s taskId = Some paused"
  shows "\<exists>r task. map_of (tasks s) taskId = Some r \<and> heap s r = Some task \<and>
           resumeTask taskId s
             = s\<lparr>heap := (heap s)(r \<mapsto> task\<lparr>status := queued\<rparr>),
                 taskQueue :=
                   takeWhile (\<lambda>q. \<not> lower_priority s (priorityOrder (priority task)) q)
                     (taskQueue s)
                   @ taskId # dropWhile (\<lambda>q. \<not> lower_priority s (priorityOrder (priority task)) q)
                       (taskQueue s)\<rparr>"
proof -
  from assms obtain r task where rt: "map_of (tasks s) taskId = Some r" "heap s r = Some task"
    "status task = paused"
    by (auto simp: status_of_def tasks_get_def split: option.splits)
  let ?s1 = "s\<lparr>heap := (heap s)(r \<mapsto> task\<lparr>status := queued\<rparr>)\<rparr>"
  have g: "tasks_get ?s1 taskId = Some (task\<lparr>status := queued\<rparr>)"
    using rt by (simp add: tasks_get_def)
  have lp: "lower_priority ?s1 p q = lower_priority s p q" for p q
    by (rule lower_priority_status_upd [OF rt(2)])
  have a: "resumeTask taskId s = queueTask taskId ?s1"
    using rt by (simp add: resumeTask_def)
  have b: "queueTask taskId ?s1 = ?s1\<lparr>taskQueue := taskQueue (queueTask taskId ?s1)\<rparr>"
    using g by (simp add: queueTask_def)
  have c: "taskQueue (queueTask taskId ?s1)
      = takeWhile (\<lambda>q. \<not> lower_priority s (priorityOrder (priority task)) q) (taskQueue s)
        @ taskId # dropWhile (\<lambda>q. \<not> lower_priority s (priorityOrder (priority task)) q)
            (taskQueue s)"
    using queueTask_position [OF g] by (simp add: lp)
  have "resumeTask taskId s
      = s\<lparr>heap := (heap s)(r \<mapsto> task\<lparr>status := queued\<rparr>),
          taskQueue :=
            takeWhile (\<lambda>q. \<not> lower_priority s (priorityOrder (priority task)) q)
              (taskQueue s)
            @ taskId # dropWhile (\<lambda>q. \<not> lower_priority s (priorityOrder (priority task)) q)
                (taskQueue s)\<rparr>"
    using b unfolding a c .
  with rt(1,2) show ?thesis by blast
qed

text \<open>
  Claim C8. \<open>pauseTask\<close> changes the state only when the job is running, and then only
  the status of that job, to \<open>paused\<close>; \<open>resumeTask\<close> changes the state only when the job
  is paused, and then sets its status to \<open>queued\<close> and puts its id into the queue just
  before the first queued id whose job has a strictly larger priority rank, at the end
  when there is none, changing nothing else. A second \<open>pauseTask\<close>, or a second
  \<open>resumeTask\<close>, leaves the whole state as the first call left it.
\<close>

theorem pause_resume_idempotent:
  "(status_of s taskId \<noteq> Some running \<longrightarrow> pauseTask taskId s = s) \<and>
   (status_of s taskId = Some running \<longrightarrow>
      status_of (pauseTask taskId s) taskId = Some paused \<and>
      (\<exists>r task. map_of (tasks s) taskId = Some r \<and> heap s r = Some task \<and>
         pauseTask taskId s = s\<lparr>heap := (heap s)(r \<mapsto> task\<lparr>status := paused\<rparr>)\<rparr>)) \<and>
   (status_of s taskId \<noteq> Some paused \<longrightarrow> resumeTask taskId s = s) \<and>
   (status_of s taskId = Some paused \<longrightarrow>
      status_of (resumeTask taskId s) taskId = Some queued \<and>
      (\<exists>r task. map_of (tasks s) taskId = Some r \<and> heap s r = Some task \<and>
         resumeTask taskId s = queueTask taskId (mutate r (\<lambda>t. t\<lparr>status := queued\<rparr>) s) \<and>
         resumeTask taskId s
           = s\<lparr>heap := (heap s)(r \<mapsto> task\<lparr>status := queued\<rparr>),
               taskQueue :=
                 takeWhile (\<lambda>q. \<not> lower_priority s (priorityOrder (priority task)) q)
                   (taskQueue s)
                 @ taskId # dropWhile (\<lambda>q. \<not> lower_priority s (priorityOrder (priority task)) q)
                     (taskQueue s)\<rparr>)) \<and>
   pauseTask taskId (pauseTask taskId s) = pauseTask taskId s \<and>
   resumeTask taskId (resumeTask taskId s) = resumeTask taskId s"
proof -
  have p: "pauseTask taskId (pauseTask taskId s) = pauseTask taskId s"
  proof (cases "status_of s taskId = Some running")
    case True
    then have "status_of (pauseTask taskId s) taskId \<noteq> Some running"
      by (simp add: status_of_pauseTask)
    then show ?thesis by (rule pauseTask_noop)
  next
    case False
    then show ?thesis by (simp add: pauseTask_noop)
  qed
  have r: "resumeTask taskId (resumeTask taskId s) = resumeTask taskId s"
  proof (cases "status_of s taskId = Some paused")
    case True
    then have "status_of (resumeTask taskId s) taskId \<noteq> Some paused"
      by (simp add: status_of_resumeTask)
    then show ?thesis by (rule resumeTask_noop)
  next
    case False
    then show ?thesis by (simp add: resumeTask_noop)
  qed
  have q: "\<exists>r task. map_of (tasks s) taskId = Some r \<and> heap s r = Some task \<and>
         resumeTask taskId s = queueTask taskId (mutate r (\<lambda>t. t\<lparr>status := queued\<rparr>) s) \<and>
         resumeTask taskId s
           = s\<lparr>heap := (heap s)(r \<mapsto> task\<lparr>status := queued\<rparr>),
               taskQueue :=
                 takeWhile (\<lambda>q. \<not> lower_priority s (priorityOrder (priority task)) q)
                   (taskQueue s)
                 @ taskId # dropWhile (\<lambda>q. \<not> lower_priority s (priorityOrder (priority task)) q)
                     (taskQueue s)\<rparr>"
    if pa: "status_of s taskId = Some paused"
  proof -
    from resumeTask_position [OF pa] obtain r task
      where rt: "map_of (tasks s) taskId = Some r" "heap s r = Some task"
        and eq: "resumeTask taskId s
           = s\<lparr>heap := (heap s)(r \<mapsto> task\<lparr>status := queued\<rparr>),
               taskQueue :=
                 takeWhile (\<lambda>q. \<not> lower_priority s (priorityOrder (priority task)) q)
                   (taskQueue s)
                 @ taskId # dropWhile (\<lambda>q. \<not> lower_priority s (priorityOrder (priority task)) q)
                     (taskQueue s)\<rparr>"
      by blast
    from pa rt have "status task = paused"
      by (simp add: status_of_def tasks_get_def)
    then have "resumeTask taskId s = queueTask taskId (mutate r (\<lambda>t. t\<lparr>status := queued\<rparr>) s)"
      by (rule resumeTask_paused [OF rt(1,2)])
    with rt eq show ?thesis by blast
  qed
  show ?thesis
    using p r q pauseTask_running [of s taskId]
    by (simp add: pauseTask_noop resumeTask_noop status_of_pauseTask status_of_resumeTask)
qed

theorem pause_resume_idempotent_witness:
  "status_of sample_two_running ''task_3_c'' = Some running \<and>
   taskQueue sample_two_running = [''task_4_d'', ''task_1_a''] \<and>
   status_of (pauseTask ''task_3_c'' sample_two_running) ''task_3_c'' = Some paused \<and>
   taskQueue (pauseTask ''task_3_c'' sample_two_running) = [''task_4_d'', ''task_1_a''] \<and>
   runningTasks (pauseTask ''task_3_c'' sample_two_running) = runningTasks sample_two_running \<and>
   pauseTask ''task_3_c'' (pauseTask ''task_3_c'' sample_two_running)
     = pauseTask ''task_3_c'' sample_two_running \<and>
   status_of (resumeTask ''task_3_c'' (pauseTask ''task_3_c'' sample_two_running)) ''task_3_c''
     = Some queued \<and>
   taskQueue (resumeTask ''task_3_c'' (pauseTask ''task_3_c'' sample_two_running))
     = [''task_4_d'', ''task_3_c'', ''task_1_a''] \<and>
   resumeTask ''task_3_c'' (resumeTask ''task_3_c'' (pauseTask ''task_3_c'' sample_two_running))
     = resumeTask ''task_3_c'' (pauseTask ''task_3_c'' sample_two_running)"
proof -
  let ?P = "pauseTask ''task_3_c'' sample_two_running"
  have e: "status_of sample_two_running ''task_3_c'' = Some running"
    by code_simp
  have q: "taskQueue sample_two_running = [''task_4_d'', ''task_1_a'']"
    by code_simp
  note th1 = pause_resume_idempotent [of sample_two_running "''task_3_c''"]
  have run1: "status_of ?P ''task_3_c'' = Some paused \<and>
      (\<exists>r task. map_of (tasks sample_two_running) ''task_3_c'' = Some r \<and>
         heap sample_two_running r = Some task \<and>
         ?P = sample_two_running\<lparr>heap := (heap sample_two_running)(r \<mapsto> task\<lparr>status := paused\<rparr>)\<rparr>)"
    using th1 [THEN conjunct2, THEN conjunct1] e by (rule mp)
  then have pa: "status_of ?P ''task_3_c'' = Some paused"
    by (rule conjunct1)
  from run1 obtain r task where
    "?P = sample_two_running\<lparr>heap := (heap sample_two_running)(r \<mapsto> task\<lparr>status := paused\<rparr>)\<rparr>"
    by blast
  then have fr: "taskQueue ?P = taskQueue sample_two_running"
    "runningTasks ?P = runningTasks sample_two_running"
    by (metis AutonomousTaskExecutor.select_convs(4,5) AutonomousTaskExecutor.surjective
        AutonomousTaskExecutor.update_convs(1))+
  have pp: "pauseTask ''task_3_c'' ?P = ?P"
    using th1 by (elim conjE)
  note th2 = pause_resume_idempotent [of ?P "''task_3_c''"]
  have res: "status_of (resumeTask ''task_3_c'' ?P) ''task_3_c'' = Some queued \<and>
      (\<exists>r task. map_of (tasks ?P) ''task_3_c'' = Some r \<and> heap ?P r = Some task \<and>
         resumeTask ''task_3_c'' ?P = queueTask ''task_3_c'' (mutate r (\<lambda>t. t\<lparr>status := queued\<rparr>) ?P) \<and>
         resumeTask ''task_3_c'' ?P
           = ?P\<lparr>heap := (heap ?P)(r \<mapsto> task\<lparr>status := queued\<rparr>),
               taskQueue :=
                 takeWhile (\<lambda>q. \<not> lower_priority ?P (priorityOrder (priority task)) q)
                   (taskQueue ?P)
                 @ ''task_3_c'' # dropWhile (\<lambda>q. \<not> lower_priority ?P (priorityOrder (priority task)) q)
                     (taskQueue ?P)\<rparr>)"
    using th2 [THEN conjunct2, THEN conjunct2, THEN conjunct2, THEN conjunct1] pa by (rule mp)
  then have rq: "status_of (resumeTask ''task_3_c'' ?P) ''task_3_c'' = Some queued"
    by (rule conjunct1)
  from res obtain r' task' where rt: "map_of (tasks ?P) ''task_3_c'' = Some r'"
    "heap ?P r' = Some task'"
    and eq: "resumeTask ''task_3_c'' ?P
           = ?P\<lparr>heap := (heap ?P)(r' \<mapsto> task'\<lparr>status := queued\<rparr>),
               taskQueue :=
                 takeWhile (\<lambda>q. \<not> lower_priority ?P (priorityOrder (priority task')) q)
                   (taskQueue ?P)
                 @ ''task_3_c'' # dropWhile (\<lambda>q. \<not> lower_priority ?P (priorityOrder (priority task')) q)
                     (taskQueue ?P)\<rparr>"
    by blast
  have "map_option priority (tasks_get ?P ''task_3_c'') = Some medium"
    by code_simp
  with rt have pr: "priorityOrder (priority task') = 2"
    by (simp add: tasks_get_def)
  have tw: "takeWhile (\<lambda>q. \<not> lower_priority ?P 2 q) (taskQueue ?P) = [''task_4_d'']"
    "dropWhile (\<lambda>q. \<not> lower_priority ?P 2 q) (taskQueue ?P) = [''task_1_a'']"
    by code_simp+
  have "taskQueue (resumeTask ''task_3_c'' ?P)
      = takeWhile (\<lambda>q. \<not> lower_priority ?P (priorityOrder (priority task')) q) (taskQueue ?P)
        @ ''task_3_c'' # dropWhile (\<lambda>q. \<not> lower_priority ?P (priorityOrder (priority task')) q)
            (taskQueue ?P)"
    by (subst eq) simp
  then have pos: "taskQueue (resumeTask ''task_3_c'' ?P) = [''task_4_d'', ''task_3_c'', ''task_1_a'']"
    by (simp only: pr tw append.simps)
  have rr: "resumeTask ''task_3_c'' (resumeTask ''task_3_c'' ?P) = resumeTask ''task_3_c'' ?P"
    using th2 by (elim conjE)
  have pq: "taskQueue ?P = [''task_4_d'', ''task_1_a'']"
    by (simp only: fr q)
  show ?thesis
    by (intro conjI e q pa pq fr(2) pp rq pos rr)
qed

end
